theory Spec2Isabelle
  imports Complex_Main "HOL-Library.Log_Nat" "HOL-Library.Word"
begin

section \<open>Go's numbers\<close>

text \<open>
  Go's \<open>int64\<close> (and \<open>int\<close>, 64 bits wide on the platforms of this program) is a
  64-bit word read as a signed number. Go's \<open>float64\<close> is IEEE 754 binary64: a finite
  value, an infinity or NaN. A finite value is the real number it denotes; the two zeros
  are one value, which no operation embedded here can tell apart (every divisor is the
  conversion of an integer, and that is never the negative zero). Every arithmetic
  operation rounds its exact result to the nearest representable number, ties to the
  even significand, with gradual underflow below \<open>2^-1022\<close> and overflow to infinity
  from \<open>2^1024\<close>.
\<close>

type_synonym int64 = "64 word"

datatype float64 = Fin real | PInf | NInf | NaN

text \<open>The binary exponent of a positive real: \<open>2^expo x \<le> x < 2^(expo x + 1)\<close>.\<close>

definition expo :: "real \<Rightarrow> int" where
  "expo x = (if 1 \<le> x then bitlen \<lfloor>x\<rfloor> - 1 else - bitlen (\<lceil>1 / x\<rceil> - 1))"

text \<open>Rounding to the nearest integer, a tie to the even one.\<close>

definition rne :: "real \<Rightarrow> int" where
  "rne q =
     (let f = \<lfloor>q\<rfloor>; r = q - of_int f
      in if r < 1/2 then f
         else if 1/2 < r then f + 1
         else if even f then f else f + 1)"

text \<open>
  The spacing of the representable numbers around \<open>x\<close>: 53 significant bits, and the
  spacing \<open>2^-1074\<close> of the subnormal numbers below \<open>2^-1022\<close>.
\<close>

definition ulp :: "real \<Rightarrow> real" where
  "ulp x = 2 powi (max (expo \<bar>x\<bar>) (- 1022) - 52)"

definition rnd :: "real \<Rightarrow> real" where
  "rnd x = (if x = 0 then 0 else of_int (rne (x / ulp x)) * ulp x)"

definition roundF :: "real \<Rightarrow> float64" where
  "roundF x =
     (let y = rnd x
      in if 2 ^ 1024 \<le> y then PInf
         else if y \<le> - (2 ^ 1024) then NInf
         else Fin y)"

text \<open>The conversion \<open>float64(n)\<close> of an integer.\<close>

definition ofInt64 :: "int64 \<Rightarrow> float64" where
  "ofInt64 n = roundF (of_int (sint n))"

text \<open>The conversion \<open>float64(len(xs))\<close> of a length.\<close>

definition ofLen :: "nat \<Rightarrow> float64" where
  "ofLen n = roundF (of_nat n)"

fun isNeg :: "float64 \<Rightarrow> bool" where
  "isNeg (Fin x) = (x < 0)"
| "isNeg NInf = True"
| "isNeg _ = False"

fun fneg :: "float64 \<Rightarrow> float64" where
  "fneg (Fin x) = Fin (- x)"
| "fneg PInf = NInf"
| "fneg NInf = PInf"
| "fneg NaN = NaN"

fun fadd :: "float64 \<Rightarrow> float64 \<Rightarrow> float64" where
  "fadd NaN _ = NaN"
| "fadd _ NaN = NaN"
| "fadd (Fin x) (Fin y) = roundF (x + y)"
| "fadd PInf NInf = NaN"
| "fadd NInf PInf = NaN"
| "fadd PInf _ = PInf"
| "fadd _ PInf = PInf"
| "fadd NInf _ = NInf"
| "fadd _ NInf = NInf"

definition fsub :: "float64 \<Rightarrow> float64 \<Rightarrow> float64" where
  "fsub a b = fadd a (fneg b)"

fun fmul :: "float64 \<Rightarrow> float64 \<Rightarrow> float64" where
  "fmul NaN _ = NaN"
| "fmul _ NaN = NaN"
| "fmul (Fin x) (Fin y) = roundF (x * y)"
| "fmul a b = (if a = Fin 0 \<or> b = Fin 0 then NaN
               else if isNeg a = isNeg b then PInf else NInf)"

fun fdiv :: "float64 \<Rightarrow> float64 \<Rightarrow> float64" where
  "fdiv NaN _ = NaN"
| "fdiv _ NaN = NaN"
| "fdiv (Fin x) (Fin y) =
     (if y = 0 then (if x = 0 then NaN else if 0 < x then PInf else NInf)
      else roundF (x / y))"
| "fdiv (Fin x) _ = Fin 0"
| "fdiv a (Fin y) = (if isNeg a = (y < 0) then PInf else NInf)"
| "fdiv _ _ = NaN"

fun fabs :: "float64 \<Rightarrow> float64" where
  "fabs (Fin x) = Fin \<bar>x\<bar>"
| "fabs NaN = NaN"
| "fabs _ = PInf"

text \<open>The comparisons; each is false when an operand is NaN.\<close>

fun flt :: "float64 \<Rightarrow> float64 \<Rightarrow> bool" where
  "flt NaN _ = False"
| "flt _ NaN = False"
| "flt (Fin x) (Fin y) = (x < y)"
| "flt NInf NInf = False"
| "flt NInf _ = True"
| "flt _ NInf = False"
| "flt PInf _ = False"
| "flt _ PInf = True"

definition fgt :: "float64 \<Rightarrow> float64 \<Rightarrow> bool" where
  "fgt a b = flt b a"

fun feq :: "float64 \<Rightarrow> float64 \<Rightarrow> bool" where
  "feq NaN _ = False"
| "feq _ NaN = False"
| "feq a b = (a = b)"

definition fge :: "float64 \<Rightarrow> float64 \<Rightarrow> bool" where
  "fge a b = (flt b a \<or> feq a b)"

fun isFin :: "float64 \<Rightarrow> bool" where
  "isFin (Fin x) = True"
| "isFin _ = False"

fun realOf :: "float64 \<Rightarrow> real" where
  "realOf (Fin x) = x"
| "realOf _ = 0"

text \<open>
  Go's conversion \<open>int64(x)\<close> of a float discards the fraction (truncation toward zero).
  For NaN, an infinity or a value that does not fit \<open>int64\<close> Go leaves the result to the
  implementation; the model returns \<open>None\<close> there.
\<close>

definition truncateToZero :: "real \<Rightarrow> int" where
  "truncateToZero x = (if 0 \<le> x then \<lfloor>x\<rfloor> else \<lceil>x\<rceil>)"

fun toInt64 :: "float64 \<Rightarrow> int option" where
  "toInt64 (Fin x) =
     (let t = truncateToZero x
      in if - (2 ^ 63) \<le> t \<and> t < 2 ^ 63 then Some t else None)"
| "toInt64 _ = None"

section \<open>Real-time CPU state (RtState)\<close>

text \<open>
  A Go map that is only looked up and updated is a partial function; a Go map that is
  iterated with \<open>range\<close> is given by the list of its entries in the order in which
  \<open>range\<close> yields them, an order that Go leaves unspecified.
\<close>

type_synonym CPUSet = "int set"

text \<open>
  Modelled from the spec: the \<open>State\<close> interface that \<open>RtState\<close> embeds
  (\<open>GetCPUSet\<close>, \<open>SetCPUSet\<close>, \<open>Delete\<close>, \<open>GetDefaultCPUSet\<close>) has no implementation
  under src/. The spec describes it as a mapping from container id to CPU set, each
  container appearing at most once, together with a default CPU set.
\<close>

record State =
  assignments :: "string \<rightharpoonup> CPUSet"
  defaultCPUSet :: CPUSet

record RtState = State +
  containerToUtil :: "string \<rightharpoonup> float64"
  cpuToUtil :: "int \<rightharpoonup> float64"

datatype error = DoesNotFit string | Panic string

text \<open>
  Modelled from the spec: the three methods of the embedded \<open>State\<close> that
  \<open>rt_state.go\<close> calls, as lookup, update and removal in the assignment mapping.
  Package \<open>cpuset\<close> is outside src/ as well: a \<open>CPUSet\<close> is a set of CPU ids, and
  \<open>NewCPUSet\<close> of a slice is the set of its elements.
\<close>

definition GetCPUSet :: "RtState \<Rightarrow> string \<Rightarrow> CPUSet option" where
  "GetCPUSet s containerID = assignments s containerID"

definition SetCPUSet :: "RtState \<Rightarrow> string \<Rightarrow> CPUSet \<Rightarrow> RtState" where
  "SetCPUSet s containerID cset = s\<lparr>assignments := (assignments s)(containerID \<mapsto> cset)\<rparr>"

definition State_Delete :: "RtState \<Rightarrow> string \<Rightarrow> RtState" where
  "State_Delete s containerID = s\<lparr>assignments := (assignments s)(containerID := None)\<rparr>"

text \<open>Reading a Go map of floats at a key: the zero value when the key is absent.\<close>

definition utilAt :: "(int \<rightharpoonup> float64) \<Rightarrow> int \<Rightarrow> float64" where
  "utilAt m i = (case m i of None \<Rightarrow> Fin 0 | Some v \<Rightarrow> v)"

text \<open>
  The three loops over \<open>set.ToSliceNoSort()\<close>. A CPU set has no duplicates, so each
  loop touches every key of the set exactly once and its effect is the pointwise update
  below, whatever the order of the slice. The arithmetic is that of \<open>float64\<close>.
\<close>

definition subFromCpus :: "CPUSet \<Rightarrow> float64 \<Rightarrow> (int \<rightharpoonup> float64) \<Rightarrow> (int \<rightharpoonup> float64)" where
  "subFromCpus cset u m = (\<lambda>i. if i \<in> cset then Some (fsub (utilAt m i) u) else m i)"

definition addToCpus :: "CPUSet \<Rightarrow> float64 \<Rightarrow> (int \<rightharpoonup> float64) \<Rightarrow> (int \<rightharpoonup> float64)" where
  "addToCpus cset u m = (\<lambda>i. if i \<in> cset then Some (fadd (utilAt m i) u) else m i)"

definition subClampFromCpus :: "CPUSet \<Rightarrow> float64 \<Rightarrow> (int \<rightharpoonup> float64) \<Rightarrow> (int \<rightharpoonup> float64)" where
  "subClampFromCpus cset u m =
     (\<lambda>i. if i \<in> cset
          then Some (let v = fsub (utilAt m i) u in if flt v (Fin 0) then Fin 0 else v)
          else m i)"

definition NewRtState :: "State \<Rightarrow> RtState" where
  "NewRtState s =
     \<lparr>assignments = assignments s, defaultCPUSet = defaultCPUSet s,
      containerToUtil = Map.empty,
      cpuToUtil = (\<lambda>i. if i \<in> defaultCPUSet s then Some (Fin 0) else None)\<rparr>"

definition GetRtCPUSetAndUtilOfContainer :: "RtState \<Rightarrow> string \<Rightarrow> (CPUSet \<times> float64) option" where
  "GetRtCPUSetAndUtilOfContainer s containerID =
     (case GetCPUSet s containerID of
        None \<Rightarrow> None
      | Some cpuSet \<Rightarrow>
          (case containerToUtil s containerID of
             None \<Rightarrow> None
           | Some util \<Rightarrow> Some (cpuSet, util)))"

text \<open>
  The part of \<open>SetRtCPUSetAndUtilOfContainer\<close> that follows the clean-up of an old
  assignment: record the set and the utilisation, then add the utilisation to every CPU
  of the set.
\<close>

definition commitRt :: "RtState \<Rightarrow> string \<Rightarrow> CPUSet \<Rightarrow> float64 \<Rightarrow> RtState" where
  "commitRt s containerID cset util =
     (let s1 = SetCPUSet s containerID cset;
          s2 = s1\<lparr>containerToUtil := (containerToUtil s1)(containerID \<mapsto> util)\<rparr>
      in s2\<lparr>cpuToUtil := addToCpus cset util (cpuToUtil s2)\<rparr>)"

definition SetRtCPUSetAndUtilOfContainer ::
  "RtState \<Rightarrow> string \<Rightarrow> CPUSet \<Rightarrow> float64 \<Rightarrow> error + RtState" where
  "SetRtCPUSetAndUtilOfContainer s containerID cset util =
     (case containerToUtil s containerID of
        Some oldUtil \<Rightarrow>
          (case GetCPUSet s containerID of
             None \<Rightarrow> Inl (Panic ''found utilization but not cpuset'')
           | Some oldSet \<Rightarrow>
               Inr (commitRt (s\<lparr>cpuToUtil := subFromCpus oldSet oldUtil (cpuToUtil s)\<rparr>)
                      containerID cset util))
      | None \<Rightarrow> Inr (commitRt s containerID cset util))"

definition Delete :: "RtState \<Rightarrow> string \<Rightarrow> error + RtState" where
  "Delete s containerID =
     (case GetCPUSet s containerID of
        None \<Rightarrow> Inl (Panic ''manage this error'')
      | Some _ \<Rightarrow>
          (case GetRtCPUSetAndUtilOfContainer s containerID of
             None \<Rightarrow> Inr (State_Delete s containerID)
           | Some (cpuSet, containerUtil) \<Rightarrow>
               Inr (State_Delete
                      (s\<lparr>cpuToUtil := subClampFromCpus cpuSet containerUtil (cpuToUtil s),
                         containerToUtil := (containerToUtil s)(containerID := None)\<rparr>)
                      containerID)))"

definition CpuToUtilMap :: "RtState \<Rightarrow> (int \<rightharpoonup> float64)" where
  "CpuToUtilMap s = cpuToUtil s"

text \<open>
  \<open>enumerates order m\<close>: the list \<open>order\<close> is one of the sequences in which \<open>range\<close>
  may yield the entries of the Go map \<open>m\<close> (every key once).
\<close>

definition enumerates :: "(int \<times> float64) list \<Rightarrow> (int \<rightharpoonup> float64) \<Rightarrow> bool" where
  "enumerates order m = (distinct (map fst order) \<and> map_of order = m)"

section \<open>Real-time policy (worstFit, AddContainer, RemoveContainer)\<close>

record realTimePolicy =
  allocableRtUtil :: float64
  numReservedCpus :: int
  reservedCpus :: CPUSet

record scoredCpu =
  cpu :: int
  score :: float64

text \<open>The first loop of \<open>worstFit\<close>: score every entry, keep those with a positive score.\<close>

fun scoreCpus :: "float64 \<Rightarrow> float64 \<Rightarrow> (int \<times> float64) list \<Rightarrow> scoredCpu list" where
  "scoreCpus alloc reqUtil [] = []"
| "scoreCpus alloc reqUtil ((c, util) # rest) =
     (let sc = fsub (fsub alloc util) reqUtil
      in if fgt sc (Fin 0) then \<lparr>cpu = c, score = sc\<rparr> # scoreCpus alloc reqUtil rest
         else scoreCpus alloc reqUtil rest)"

text \<open>
  Go's \<open>sort.SliceStable\<close> (standard library): a stable sort by the given \<open>less\<close>.
  Elements that \<open>less\<close> does not order keep their original relative order, which is
  what inserting each element in front of the first one not less than it does.
\<close>

fun insertStable :: "('a \<Rightarrow> 'a \<Rightarrow> bool) \<Rightarrow> 'a \<Rightarrow> 'a list \<Rightarrow> 'a list" where
  "insertStable lessFn x [] = [x]"
| "insertStable lessFn x (y # ys) =
     (if lessFn y x then y # insertStable lessFn x ys else x # y # ys)"

definition SliceStable :: "('a \<Rightarrow> 'a \<Rightarrow> bool) \<Rightarrow> 'a list \<Rightarrow> 'a list" where
  "SliceStable lessFn xs = foldr (insertStable lessFn) xs []"

definition worstFit ::
  "realTimePolicy \<Rightarrow> (int \<times> float64) list \<Rightarrow> float64 \<Rightarrow> int64 \<Rightarrow> int list" where
  "worstFit p order reqUtil reqCpus =
     (let scoredCpus = scoreCpus (allocableRtUtil p) reqUtil order
      in if int (length scoredCpus) < sint reqCpus then []
         else map cpu (take (nat (sint reqCpus))
                (SliceStable (\<lambda>a b. fgt (score a) (score b)) scoredCpus)))"

text \<open>
  The container as \<open>rtRequests\<close> reads it: the integer values of its \<open>rt-period\<close>,
  \<open>rt-runtime\<close> and \<open>rt-cpu\<close> requests (the accessors live outside src/).
\<close>

record v1_Container =
  Name :: string
  CpuRtPeriod :: int64
  CpuRtRuntime :: int64
  CpuRt :: int64

definition rtRequests :: "v1_Container \<Rightarrow> int64 \<times> int64 \<times> int64" where
  "rtRequests container = (CpuRtPeriod container, CpuRtRuntime container, CpuRt container)"

definition requestedUtil :: "v1_Container \<Rightarrow> float64" where
  "requestedUtil container =
     (case rtRequests container of (reqPeriod, reqRuntime, reqCpus) \<Rightarrow>
        if reqPeriod \<noteq> 0 then fdiv (ofInt64 reqRuntime) (ofInt64 reqPeriod) else Fin 0)"

text \<open>
  \<open>AddContainer\<close> returns the error (if any) and the state it leaves behind. The
  argument \<open>order\<close> is the order in which \<open>range\<close> yields the snapshot
  \<open>CpuToUtilMap s\<close> inside \<open>worstFit\<close>.
\<close>

definition AddContainer ::
  "realTimePolicy \<Rightarrow> (int \<times> float64) list \<Rightarrow> RtState \<Rightarrow> v1_Container \<Rightarrow> string
     \<Rightarrow> error option \<times> RtState" where
  "AddContainer p order s container containerID =
     (case rtRequests container of (reqPeriod, reqRuntime, reqCpus) \<Rightarrow>
        let reqUtil = requestedUtil container in
        if feq reqUtil (Fin 0) then (None, s)
        else if GetRtCPUSetAndUtilOfContainer s containerID \<noteq> None then (None, s)
        else
          let cpus = worstFit p order reqUtil reqCpus in
          if int (length cpus) < sint reqCpus then (Some (DoesNotFit containerID), s)
          else
            (case SetRtCPUSetAndUtilOfContainer s containerID (set cpus) reqUtil of
               Inl e \<Rightarrow> (Some e, s)
             | Inr s' \<Rightarrow> (None, s')))"

definition RemoveContainer :: "RtState \<Rightarrow> string \<Rightarrow> error option \<times> RtState" where
  "RemoveContainer s containerID =
     (case GetRtCPUSetAndUtilOfContainer s containerID of
        None \<Rightarrow> (None, s)
      | Some _ \<Rightarrow>
          (case Delete s containerID of
             Inl e \<Rightarrow> (Some e, s)
           | Inr s' \<Rightarrow> (None, s')))"

section \<open>Specification vocabulary for the real-time policy\<close>

text \<open>
  The spec's words for step 5 of \<open>AddContainer\<close>: the candidate CPUs are the entries of
  the snapshot with \<open>util + u < allocableRtUtil\<close>.
\<close>

definition specCandidates ::
  "float64 \<Rightarrow> float64 \<Rightarrow> (int \<times> float64) list \<Rightarrow> (int \<times> float64) list" where
  "specCandidates alloc u order = filter (\<lambda>(c, util). flt (fadd util u) alloc) order"

text \<open>
  The residual headroom of a CPU as the program computes it, the \<open>float64\<close> value of
  \<open>allocableRtUtil - util - u\<close> evaluated from left to right, and the entries of the
  snapshot whose headroom is positive.
\<close>

definition headroomOf :: "float64 \<Rightarrow> float64 \<Rightarrow> float64 \<Rightarrow> float64" where
  "headroomOf alloc u util = fsub (fsub alloc util) u"

definition fitting ::
  "float64 \<Rightarrow> float64 \<Rightarrow> (int \<times> float64) list \<Rightarrow> (int \<times> float64) list" where
  "fitting alloc u order = filter (\<lambda>(c, util). fgt (headroomOf alloc u util) (Fin 0)) order"

definition headroom :: "float64 \<Rightarrow> float64 \<Rightarrow> (int \<times> float64) list \<Rightarrow> int \<Rightarrow> float64" where
  "headroom alloc u order c = headroomOf alloc u (utilAt (map_of order) c)"

text \<open>Sequences of \<open>set\<close> and \<open>delete\<close> operations on an \<open>RtState\<close>; a panic ends the run.\<close>

datatype rtOp = OpSet string CPUSet float64 | OpDelete string

fun applyOp :: "RtState \<Rightarrow> rtOp \<Rightarrow> error + RtState" where
  "applyOp s (OpSet containerID cset util) = SetRtCPUSetAndUtilOfContainer s containerID cset util"
| "applyOp s (OpDelete containerID) = Delete s containerID"

fun runOps :: "RtState \<Rightarrow> rtOp list \<Rightarrow> error + RtState" where
  "runOps s [] = Inr s"
| "runOps s (x # xs) = (case applyOp s x of Inl e \<Rightarrow> Inl e | Inr s' \<Rightarrow> runOps s' xs)"

text \<open>The spec's range of a utilisation: a finite number from 0 up to, not including, 1.\<close>

definition inUnitInterval :: "float64 \<Rightarrow> bool" where
  "inUnitInterval u = (isFin u \<and> 0 \<le> realOf u \<and> realOf u < 1)"

fun utilInUnitInterval :: "rtOp \<Rightarrow> bool" where
  "utilInUnitInterval (OpSet containerID cset util) = inUnitInterval util"
| "utilInUnitInterval (OpDelete containerID) = True"

text \<open>
  The right-hand side of invariant I2: the containers that carry a utilisation and whose
  current assignment contains CPU \<open>i\<close>, and the sum, a sum of real numbers, of their
  utilisations.
\<close>

definition containersOn :: "RtState \<Rightarrow> int \<Rightarrow> string set" where
  "containersOn s i =
     {c. c \<in> dom (containerToUtil s)
         \<and> (case assignments s c of None \<Rightarrow> False | Some cset \<Rightarrow> i \<in> cset)}"

definition expectedUtil :: "RtState \<Rightarrow> int \<Rightarrow> real" where
  "expectedUtil s i = (\<Sum>c \<in> containersOn s i. realOf (the (containerToUtil s c)))"

definition restUtil :: "RtState \<Rightarrow> string \<Rightarrow> int \<Rightarrow> real" where
  "restUtil s c i = (\<Sum>d \<in> containersOn s i - {c}. realOf (the (containerToUtil s d)))"

text \<open>A \<open>float64\<close> that is finite and within \<open>b\<close> of the real number \<open>t\<close>.\<close>

definition closeTo :: "real \<Rightarrow> float64 \<Rightarrow> real \<Rightarrow> bool" where
  "closeTo b v t = (isFin v \<and> \<bar>realOf v - t\<bar> \<le> b)"

text \<open>The distance that \<open>n\<close> operations can put between the stored value and the sum.\<close>

definition driftBound :: "nat \<Rightarrow> real" where
  "driftBound n = real (n * (n + 7)) / 2 ^ 53"

definition balancedWithin :: "nat \<Rightarrow> RtState \<Rightarrow> bool" where
  "balancedWithin n s = (finite (dom (containerToUtil s))
      \<and> card (dom (containerToUtil s)) \<le> n
      \<and> (\<forall>c u. containerToUtil s c = Some u \<longrightarrow> inUnitInterval u)
      \<and> (\<forall>i. closeTo (driftBound n) (utilAt (cpuToUtil s) i) (expectedUtil s i)))"

subsection \<open>Concrete inputs\<close>

text \<open>The doubles nearest to 0.94, 0.01 and 0.95.\<close>

definition d94 :: real where
  "d94 = 8466767299456532 / 2 ^ 53"

definition d01 :: real where
  "d01 = 5764607523034235 / 2 ^ 59"

definition d95 :: real where
  "d95 = 8556839292003942 / 2 ^ 53"

definition policy95 :: realTimePolicy where
  "policy95 = \<lparr>allocableRtUtil = fdiv (ofInt64 95) (ofInt64 100),
               numReservedCpus = 0, reservedCpus = {}\<rparr>"

definition policy1 :: realTimePolicy where
  "policy1 = \<lparr>allocableRtUtil = Fin 1, numReservedCpus = 0, reservedCpus = {}\<rparr>"

definition fourCpus :: "(int \<times> float64) list" where
  "fourCpus = [(0, Fin (1/4)), (1, Fin (1/2)), (2, Fin 0), (3, Fin (3/4))]"

definition twoIdleCpus :: "int \<rightharpoonup> float64" where
  "twoIdleCpus = [0 \<mapsto> Fin 0, 1 \<mapsto> Fin 0]"

definition emptyNode :: State where
  "emptyNode = \<lparr>assignments = Map.empty, defaultCPUSet = {0}\<rparr>"

definition halfCpu :: v1_Container where
  "halfCpu = \<lparr>Name = ''rt'', CpuRtPeriod = 1000000, CpuRtRuntime = 500000, CpuRt = 1\<rparr>"

definition containerA :: v1_Container where
  "containerA = \<lparr>Name = ''a'', CpuRtPeriod = 100, CpuRtRuntime = 94, CpuRt = 1\<rparr>"

definition containerB :: v1_Container where
  "containerB = \<lparr>Name = ''b'', CpuRtPeriod = 100, CpuRtRuntime = 1, CpuRt = 1\<rparr>"

definition afterFirstAdd :: RtState where
  "afterFirstAdd = snd (AddContainer policy1 [(0, Fin 0)] (NewRtState emptyNode) halfCpu ''c1'')"

definition afterA :: RtState where
  "afterA = snd (AddContainer policy95 [(0, Fin 0)] (NewRtState emptyNode) containerA ''a'')"

definition steadyOps :: "rtOp list" where
  "steadyOps = [OpSet ''a'' {0, 1} (Fin (1/4)), OpSet ''b'' {0} (Fin (1/2)), OpDelete ''a'']"

definition afterSteady :: RtState where
  "afterSteady = \<lparr>assignments = [''b'' \<mapsto> {0}], defaultCPUSet = {0},
      containerToUtil = [''b'' \<mapsto> Fin (1/2)], cpuToUtil = [0 \<mapsto> Fin (1/2), 1 \<mapsto> Fin 0]\<rparr>"

text \<open>
  A long run: \<open>n\<close> containers, each set on CPU 0 with the utilisation
  \<open>1/2 + 2^-41\<close>, a double inside the unit interval.
\<close>

definition driftUtil :: real where
  "driftUtil = 1/2 + 1 / 2 ^ 41"

definition driftId :: "nat \<Rightarrow> string" where
  "driftId k = replicate k (CHR ''c'')"

definition driftOp :: "nat \<Rightarrow> rtOp" where
  "driftOp k = OpSet (driftId k) {0} (Fin driftUtil)"

definition driftOps :: "nat \<Rightarrow> rtOp list" where
  "driftOps n = map driftOp [0..<n]"

text \<open>What CPU 0 stores after \<open>n\<close> of these operations, for \<open>n\<close> up to 16384.\<close>

definition driftStored :: "nat \<Rightarrow> real" where
  "driftStored n =
     (if n \<le> 8192 then real n * driftUtil
      else 8192 * driftUtil + (real n - 8192) / 2)"

definition driftState :: "nat \<Rightarrow> RtState" where
  "driftState n =
     \<lparr>assignments = (\<lambda>c. if c \<in> driftId ` {..<n} then Some {0} else None),
      defaultCPUSet = {0},
      containerToUtil = (\<lambda>c. if c \<in> driftId ` {..<n} then Some (Fin driftUtil) else None),
      cpuToUtil = [0 \<mapsto> Fin (driftStored n)]\<rparr>"

section \<open>Balanced resource scoring (balancedResourceScorer, variance)\<close>

text \<open>
  Modelled from the spec: \<open>framework.MaxNodeScore\<close> is declared outside src/; the spec
  gives \<open>MaxNodeScore = 100\<close>.
\<close>

definition MaxNodeScore :: int64 where
  "MaxNodeScore = 100"

text \<open>Reading a \<open>ResourceToValueMap\<close> at a key: zero when the key is absent.\<close>

definition valueAt :: "(string \<rightharpoonup> int64) \<Rightarrow> string \<Rightarrow> int64" where
  "valueAt m k = (case m k of None \<Rightarrow> 0 | Some v \<Rightarrow> v)"

definition fractionOfCapacity :: "int64 \<Rightarrow> int64 \<Rightarrow> float64" where
  "fractionOfCapacity requested capacity =
     (if requested = 0 then Fin 0
      else if capacity = 0 then Fin 1
      else fdiv (ofInt64 requested) (ofInt64 capacity))"

fun meanLoop :: "float64 \<Rightarrow> float64 \<Rightarrow> float64 list \<Rightarrow> float64" where
  "meanLoop n mean [] = mean"
| "meanLoop n mean (t # ts) = meanLoop n (fadd mean (fdiv t n)) ts"

fun numLoop :: "float64 \<Rightarrow> float64 \<Rightarrow> float64 list \<Rightarrow> float64" where
  "numLoop mean num [] = num"
| "numLoop mean num (t # ts) = numLoop mean (fadd num (fmul (fsub t mean) (fsub t mean))) ts"

text \<open>\<open>variance\<close> of no terms divides zero by zero, which is NaN.\<close>

definition variance :: "float64 list \<Rightarrow> float64" where
  "variance terms =
     (let n = ofLen (length terms);
          mean = meanLoop n (Fin 0) terms;
          num = numLoop mean (Fin 0) terms
      in fdiv num n)"

text \<open>
  The loop over \<open>requested\<close>, whose entries come in \<open>range\<close> order; \<open>None\<close> is the
  early \<open>return 0\<close>.
\<close>

fun resourceFractions ::
  "(string \<times> int64) list \<Rightarrow> (string \<rightharpoonup> int64) \<Rightarrow> float64 list \<Rightarrow> float64 list option" where
  "resourceFractions [] allocable fractions = Some fractions"
| "resourceFractions ((request, v) # rest) allocable fractions =
     (let f = fractionOfCapacity v (valueAt allocable request)
      in if fge f (Fin 1) then None
         else resourceFractions rest allocable (fractions @ [f]))"

text \<open>
  The first argument is the state of the feature gate \<open>BalanceAttachedNodeVolumes\<close>,
  which the source reads from a process-wide variable. The result is \<open>None\<close> where the
  final conversion to \<open>int64\<close> has no defined result.
\<close>

definition balancedResourceScorer ::
  "bool \<Rightarrow> (string \<times> int64) list \<Rightarrow> (string \<rightharpoonup> int64) \<Rightarrow> bool \<Rightarrow> int64 \<Rightarrow> int64
     \<Rightarrow> int option" where
  "balancedResourceScorer balanceAttachedNodeVolumes requested allocable includeVolumes
       requestedVolumes allocatableVolumes =
     (case resourceFractions requested allocable [] of
        None \<Rightarrow> Some 0
      | Some fr \<Rightarrow>
          let fractions =
                (if includeVolumes \<and> balanceAttachedNodeVolumes \<and> 0 < sint allocatableVolumes
                 then fr @ [fdiv (ofInt64 requestedVolumes) (ofInt64 allocatableVolumes)]
                 else fr)
          in if length fractions = 2
             then toInt64 (fmul (fsub (Fin 1) (fabs (fsub (fractions ! 0) (fractions ! 1))))
                             (ofInt64 MaxNodeScore))
             else toInt64 (fmul (fsub (Fin 1) (variance fractions)) (ofInt64 MaxNodeScore)))"

subsection \<open>Specification vocabulary for the scorer\<close>




text \<open>A finite number that rounding leaves as it is.\<close>

definition representable :: "float64 \<Rightarrow> bool" where
  "representable f = (isFin f \<and> rnd (realOf f) = realOf f \<and> \<bar>realOf f\<bar> \<le> 2 ^ 1000)"

subsection \<open>Concrete inputs\<close>

text \<open>The doubles of 0.8, of \<open>1 - 0.8\<close> and of \<open>(1 - 0.8) * 100\<close>.\<close>

definition d80 :: real where
  "d80 = 7205759403792794 / 2 ^ 53"

definition d20 :: real where
  "d20 = 1801439850948198 / 2 ^ 53"

definition d1999 :: real where
  "d1999 = 5629499534213119 / 2 ^ 48"

definition cpuAndMemoryIdle :: "(string \<times> int64) list" where
  "cpuAndMemoryIdle = [(''cpu'', 0), (''memory'', 0)]"


definition cpuEightMemoryIdle :: "(string \<times> int64) list" where
  "cpuEightMemoryIdle = [(''cpu'', 8), (''memory'', 0)]"

definition cpuOne :: "(string \<times> int64) list" where
  "cpuOne = [(''cpu'', 1)]"

definition node16 :: "string \<rightharpoonup> int64" where
  "node16 = [''cpu'' \<mapsto> 16, ''memory'' \<mapsto> 16]"

definition node10 :: "string \<rightharpoonup> int64" where
  "node10 = [''cpu'' \<mapsto> 10, ''memory'' \<mapsto> 10]"

section \<open>Pod QoS classification (GetPodQOS)\<close>

text \<open>
  A \<open>ResourceList\<close> is a Go map from resource name to quantity; both loops of
  \<open>GetPodQOS\<close> iterate it, so it is the list of its entries. A quantity is an exact
  decimal number, compared with \<open>Cmp\<close> and added with \<open>Add\<close>: a rational.
\<close>

type_synonym ResourceList = "(string \<times> rat) list"

record core_Container =
  Requests :: ResourceList
  Limits :: ResourceList

record core_Pod =
  Containers :: "core_Container list"
  InitContainers :: "core_Container list"

datatype PodQOSClass = PodQOSGuaranteed | PodQOSBurstable | PodQOSBestEffort

text \<open>
  Modelled from the spec: the resource-name constants of package \<open>core\<close> are declared
  outside src/; the spec's classifier section names them \<open>cpu\<close>, \<open>memory\<close>,
  \<open>rt-period\<close>, \<open>rt-runtime\<close> and \<open>rt-cpu\<close>.
\<close>

definition ResourceCPU :: string where
  "ResourceCPU = ''cpu''"

definition ResourceMemory :: string where
  "ResourceMemory = ''memory''"

definition ResourceRtRuntime :: string where
  "ResourceRtRuntime = ''rt-runtime''"

definition ResourceRtPeriod :: string where
  "ResourceRtPeriod = ''rt-period''"

definition ResourceRtCpu :: string where
  "ResourceRtCpu = ''rt-cpu''"

definition supportedQoSComputeResources :: "string set" where
  "supportedQoSComputeResources =
     {ResourceCPU, ResourceMemory, ResourceRtRuntime, ResourceRtPeriod, ResourceRtCpu}"

definition isSupportedQoSComputeResource :: "string \<Rightarrow> bool" where
  "isSupportedQoSComputeResource name = (name \<in> supportedQoSComputeResources)"

text \<open>The loop over a container's requests.\<close>

fun processRequests :: "(string \<rightharpoonup> rat) \<Rightarrow> ResourceList \<Rightarrow> (string \<rightharpoonup> rat)" where
  "processRequests requests [] = requests"
| "processRequests requests ((name, quantity) # rest) =
     (if \<not> isSupportedQoSComputeResource name then processRequests requests rest
      else if quantity > 0 then
        (case requests name of
           None \<Rightarrow> processRequests (requests(name \<mapsto> quantity)) rest
         | Some prev \<Rightarrow> processRequests (requests(name \<mapsto> quantity + prev)) rest)
      else processRequests requests rest)"

text \<open>The loop over a container's limits, which also collects \<open>qosLimitsFound\<close>.\<close>

fun processLimits ::
  "(string \<rightharpoonup> rat) \<times> string set \<Rightarrow> ResourceList \<Rightarrow> (string \<rightharpoonup> rat) \<times> string set" where
  "processLimits (limits, qosLimitsFound) [] = (limits, qosLimitsFound)"
| "processLimits (limits, qosLimitsFound) ((name, quantity) # rest) =
     (if \<not> isSupportedQoSComputeResource name then processLimits (limits, qosLimitsFound) rest
      else if quantity > 0 then
        (case limits name of
           None \<Rightarrow> processLimits (limits(name \<mapsto> quantity), insert name qosLimitsFound) rest
         | Some prev \<Rightarrow>
             processLimits (limits(name \<mapsto> quantity + prev), insert name qosLimitsFound) rest)
      else processLimits (limits, qosLimitsFound) rest)"

text \<open>The loop over all containers, carrying \<open>requests\<close>, \<open>limits\<close> and \<open>isGuaranteed\<close>.\<close>

fun containerLoop ::
  "(string \<rightharpoonup> rat) \<times> (string \<rightharpoonup> rat) \<times> bool \<Rightarrow> core_Container list
     \<Rightarrow> (string \<rightharpoonup> rat) \<times> (string \<rightharpoonup> rat) \<times> bool" where
  "containerLoop st [] = st"
| "containerLoop (requests, limits, isGuaranteed) (container # rest) =
     (let requests' = processRequests requests (Requests container);
          (limits', qosLimitsFound) = processLimits (limits, {}) (Limits container);
          isGuaranteed' =
            (if \<not> (ResourceMemory \<in> qosLimitsFound \<and> ResourceCPU \<in> qosLimitsFound)
                \<and> \<not> (ResourceRtRuntime \<in> qosLimitsFound)
             then False else isGuaranteed)
      in containerLoop (requests', limits', isGuaranteed') rest)"

text \<open>
  The loop that compares every aggregated request with the limit of the same name and
  stops at the first mismatch: it leaves \<open>isGuaranteed\<close> true exactly when there is no
  mismatch, in whatever order \<open>range\<close> visits the keys.
\<close>

definition requestsMatchLimits :: "(string \<rightharpoonup> rat) \<Rightarrow> (string \<rightharpoonup> rat) \<Rightarrow> bool" where
  "requestsMatchLimits requests limits =
     (\<forall>name \<in> dom requests.
        case limits name of None \<Rightarrow> False | Some limit \<Rightarrow> limit = the (requests name))"

definition GetPodQOS :: "core_Pod \<Rightarrow> PodQOSClass" where
  "GetPodQOS pod =
     (let allContainers = Containers pod @ InitContainers pod in
      case containerLoop (Map.empty, Map.empty, True) allContainers of
        (requests, limits, isGuaranteed) \<Rightarrow>
          if card (dom requests) = 0 \<and> card (dom limits) = 0 then PodQOSBestEffort
          else
            let isGuaranteed' =
                  (if isGuaranteed then requestsMatchLimits requests limits else isGuaranteed)
            in if isGuaranteed' \<and> card (dom requests) = card (dom limits)
               then PodQOSGuaranteed
               else PodQOSBurstable)"

subsection \<open>Specification vocabulary for the classifier\<close>

text \<open>
  The spec's aggregates: \<open>R\<close> (and \<open>L\<close>) maps a recognised resource name to the sum of
  the positive requests (limits) for it over all containers, and has no entry for a name
  without a positive quantity. \<open>LimitsComplete\<close>: the positive limits of a container
  contain both \<open>cpu\<close> and \<open>memory\<close>, or contain \<open>rt-runtime\<close>.
\<close>

definition positiveQuantities :: "ResourceList \<Rightarrow> string \<Rightarrow> rat list" where
  "positiveQuantities entries name =
     map snd (filter (\<lambda>(n, q). n = name \<and> isSupportedQoSComputeResource n \<and> q > 0) entries)"

definition aggregate :: "ResourceList list \<Rightarrow> (string \<rightharpoonup> rat)" where
  "aggregate resourceLists name =
     (let qs = positiveQuantities (concat resourceLists) name
      in if qs = [] then None else Some (sum_list qs))"

definition specR :: "core_Pod \<Rightarrow> (string \<rightharpoonup> rat)" where
  "specR pod = aggregate (map Requests (Containers pod @ InitContainers pod))"

definition specL :: "core_Pod \<Rightarrow> (string \<rightharpoonup> rat)" where
  "specL pod = aggregate (map Limits (Containers pod @ InitContainers pod))"

definition positiveLimitNames :: "core_Container \<Rightarrow> string set" where
  "positiveLimitNames container = set (map fst (filter (\<lambda>(n, q). q > 0) (Limits container)))"

definition LimitsComplete :: "core_Container \<Rightarrow> bool" where
  "LimitsComplete container =
     ((ResourceCPU \<in> positiveLimitNames container \<and> ResourceMemory \<in> positiveLimitNames container)
      \<or> ResourceRtRuntime \<in> positiveLimitNames container)"

definition plusOpt :: "rat option \<Rightarrow> rat list \<Rightarrow> rat option" where
  "plusOpt a qs = (case a of None \<Rightarrow> (if qs = [] then None else Some (sum_list qs))
                           | Some v \<Rightarrow> Some (v + sum_list qs))"

subsection \<open>Concrete inputs\<close>

definition guaranteedPod :: core_Pod where
  "guaranteedPod =
     \<lparr>Containers = [\<lparr>Requests = [(''cpu'', 1), (''memory'', 1073741824)],
                      Limits = [(''cpu'', 1), (''memory'', 1073741824)]\<rparr>],
      InitContainers = []\<rparr>"

section \<open>Internal container lifecycle (PostStopContainer)\<close>

text \<open>
  The two collaborators are given by what their \<open>RemoveContainer\<close> returns for a
  container id (\<open>None\<close> for a nil error), the two feature gates by their state. The
  hook's result is the list of collaborator calls it made and the error it returns.
\<close>

record internalContainerLifecycleImpl =
  cpuManagerGate :: bool
  topologyManagerGate :: bool
  cpuManager_RemoveContainer :: "string \<Rightarrow> string option"
  topologyManager_RemoveContainer :: "string \<Rightarrow> string option"

datatype collaboratorCall =
  CpuManagerRemoveContainer string
  | TopologyManagerRemoveContainer string

definition PostStopContainer ::
  "internalContainerLifecycleImpl \<Rightarrow> string \<Rightarrow> collaboratorCall list \<times> string option" where
  "PostStopContainer i containerID =
     (case (if cpuManagerGate i
            then ([CpuManagerRemoveContainer containerID], cpuManager_RemoveContainer i containerID)
            else ([], None)) of
        (calls, Some err) \<Rightarrow> (calls, Some err)
      | (calls, None) \<Rightarrow>
          (case (if topologyManagerGate i
                 then (calls @ [TopologyManagerRemoveContainer containerID],
                       topologyManager_RemoveContainer i containerID)
                 else (calls, None)) of
             (calls', Some err) \<Rightarrow> (calls', Some err)
           | (calls', None) \<Rightarrow> (calls', None)))"

subsection \<open>Concrete inputs\<close>

definition removeFails :: "string \<Rightarrow> string option" where
  "removeFails containerID = Some ''remove failed''"

definition removeSucceeds :: "string \<Rightarrow> string option" where
  "removeSucceeds containerID = None"

definition failingCpuManager :: internalContainerLifecycleImpl where
  "failingCpuManager =
     \<lparr>cpuManagerGate = True, topologyManagerGate = True,
      cpuManager_RemoveContainer = removeFails,
      topologyManager_RemoveContainer = removeSucceeds\<rparr>"

section \<open>Rounding\<close>

lemma expo_bounds:
  assumes "0 < x"
  shows "2 powi (expo x) \<le> x \<and> x < 2 powi (expo x + 1)"
proof (cases "1 \<le> x")
  case True
  define n where "n = \<lfloor>x\<rfloor>"
  have n1: "1 \<le> n" using True by (simp add: n_def)
  then have b: "2 ^ nat (bitlen n - 1) \<le> n \<and> n < 2 ^ nat (bitlen n)"
    using bitlen_bounds[of n] by simp
  have bl: "1 \<le> bitlen n" using n1 by (auto simp: bitlen_alt_def)
  have e: "expo x = bitlen n - 1" using True by (simp add: expo_def n_def)
  have "2 powi (bitlen n - 1) = (2::real) ^ nat (bitlen n - 1)"
    using bl by (simp add: power_int_def)
  also have "\<dots> = real_of_int (2 ^ nat (bitlen n - 1))" by simp
  also have "\<dots> \<le> real_of_int n" using b by (simp only: of_int_le_iff)
  also have "\<dots> \<le> x" by (simp add: n_def)
  finally have lo: "2 powi (expo x) \<le> x" by (simp add: e)
  have "x < real_of_int (n + 1)" by (simp add: n_def)
  also have "\<dots> \<le> real_of_int (2 ^ nat (bitlen n))"
    using b by (simp only: of_int_le_iff) simp
  also have "\<dots> = 2 powi (bitlen n)" using bl by (simp add: power_int_def)
  finally have "x < 2 powi (expo x + 1)" by (simp add: e)
  with lo show ?thesis by simp
next
  case False
  define y where "y = 1 / x"
  define n where "n = \<lceil>y\<rceil> - 1"
  have y1: "1 < y" using False assms by (simp add: y_def)
  then have n1: "1 \<le> n" unfolding n_def by linarith
  have ny: "real_of_int n < y" "y \<le> real_of_int n + 1"
    unfolding n_def by linarith+
  have b: "2 ^ nat (bitlen n - 1) \<le> n \<and> n < 2 ^ nat (bitlen n)"
    using bitlen_bounds[of n] n1 by simp
  have bl: "1 \<le> bitlen n" using n1 by (auto simp: bitlen_alt_def)
  have e: "expo x = - bitlen n" using False by (simp add: expo_def n_def y_def)
  have "y \<le> real_of_int (n + 1)" using ny by simp
  also have "\<dots> \<le> real_of_int (2 ^ nat (bitlen n))"
    using b by (simp only: of_int_le_iff) simp
  also have "\<dots> = 2 powi (bitlen n)" using bl by (simp add: power_int_def)
  finally have "1 / x \<le> 2 powi (bitlen n)" by (simp add: y_def)
  then have lo: "2 powi (- bitlen n) \<le> x"
    using assms by (simp add: power_int_minus field_simps)
  have "(2::real) powi (bitlen n - 1) = 2 ^ nat (bitlen n - 1)"
    using bl by (simp add: power_int_def)
  also have "\<dots> = real_of_int (2 ^ nat (bitlen n - 1))" by simp
  also have "\<dots> \<le> real_of_int n" using b by (simp only: of_int_le_iff)
  also have "\<dots> < y" using ny by simp
  finally have "2 powi (bitlen n - 1) < 1 / x" by (simp add: y_def)
  then have "x < 1 / 2 powi (bitlen n - 1)"
    using assms by (simp add: field_simps)
  also have "\<dots> = 2 powi (- bitlen n + 1)"
    by (simp add: power_int_minus_divide[symmetric])
  finally have "x < 2 powi (expo x + 1)" by (simp add: e)
  with lo show ?thesis by (simp add: e)
qed

lemma expo_eqI:
  assumes "2 powi e \<le> x" "x < 2 powi (e + 1)"
  shows "expo x = e"
proof -
  have pos: "0 < x" using assms(1) by (rule less_le_trans[rotated]) simp
  from expo_bounds[OF pos] have b: "2 powi (expo x) \<le> x" "x < 2 powi (expo x + 1)" by simp_all
  have "\<not> expo x < e"
  proof
    assume "expo x < e"
    then have "expo x + 1 \<le> e" by simp
    then have "(2::real) powi (expo x + 1) \<le> 2 powi e" by (intro power_int_increasing) simp_all
    with b(2) assms(1) show False by linarith
  qed
  moreover have "\<not> e < expo x"
  proof
    assume "e < expo x"
    then have "e + 1 \<le> expo x" by simp
    then have "(2::real) powi (e + 1) \<le> 2 powi (expo x)" by (intro power_int_increasing) simp_all
    with b(1) assms(2) show False by linarith
  qed
  ultimately show ?thesis by simp
qed

lemma rne_of_int [simp]: "rne (of_int n) = n"
  by (simp add: rne_def)

lemma rne_err: "\<bar>of_int (rne q) - q\<bar> \<le> 1/2"
  unfolding rne_def Let_def by (auto; linarith)

lemma rne_half_even: "even n \<Longrightarrow> rne (of_int n + 1/2) = n"
proof -
  have "\<lfloor>real_of_int n + 1/2\<rfloor> = n" by linarith
  then show "even n \<Longrightarrow> rne (of_int n + 1/2) = n"
    by (simp add: rne_def Let_def)
qed

lemma rne_abs_le:
  assumes "\<bar>q\<bar> \<le> of_int m"
  shows "\<bar>rne q\<bar> \<le> m"
proof -
  have "\<lfloor>q\<rfloor> \<le> rne q" "rne q \<le> \<lfloor>q\<rfloor> + 1" by (auto simp: rne_def Let_def)
  moreover have "rne q \<le> \<lceil>q\<rceil>"
    unfolding rne_def Let_def by (auto simp: ceiling_altdef; linarith)
  moreover have "- m \<le> \<lfloor>q\<rfloor>" "\<lceil>q\<rceil> \<le> m"
    using assms by (simp_all add: le_floor_iff ceiling_le_iff abs_le_iff)
  ultimately show ?thesis by linarith
qed

lemma ulp_pos [simp]: "0 < ulp x"
  by (simp add: ulp_def)

lemma ulp_nonzero [simp]: "ulp x \<noteq> 0"
  using ulp_pos[of x] by (simp del: ulp_pos)

lemma rnd_0 [simp]: "rnd 0 = 0"
  by (simp add: rnd_def)

lemma rnd_err: "\<bar>rnd x - x\<bar> \<le> ulp x / 2"
proof (cases "x = 0")
  case True
  then show ?thesis by (simp add: less_imp_le)
next
  case False
  have "rnd x - x = (of_int (rne (x / ulp x)) - x / ulp x) * ulp x"
    using False by (simp add: rnd_def left_diff_distrib)
  then have "\<bar>rnd x - x\<bar> = \<bar>of_int (rne (x / ulp x)) - x / ulp x\<bar> * ulp x"
    by (simp add: abs_mult less_imp_le)
  also have "\<dots> \<le> (1/2) * ulp x"
    by (intro mult_right_mono rne_err) (simp add: less_imp_le)
  finally show ?thesis by simp
qed

lemma ulp_le: "ulp x \<le> (\<bar>x\<bar> + 1) / 2 ^ 52"
proof (cases "x = 0")
  case True
  have "(2::real) powi (- 1022 - 52) \<le> 2 powi (- 52)"
    by (intro power_int_increasing) simp_all
  also have "\<dots> = 1 / 2 ^ 52" by (simp add: power_int_minus_divide)
  finally show ?thesis using True by (simp add: ulp_def expo_def bitlen_alt_def)
next
  case False
  then have pos: "0 < \<bar>x\<bar>" by simp
  show ?thesis
  proof (cases "- 1022 \<le> expo \<bar>x\<bar>")
    case True
    then have "ulp x = 2 powi (expo \<bar>x\<bar>) / 2 ^ 52"
      by (simp add: ulp_def max_def power_int_diff)
    also have "\<dots> \<le> \<bar>x\<bar> / 2 ^ 52"
      using expo_bounds[OF pos] by (simp add: divide_right_mono)
    also have "\<dots> \<le> (\<bar>x\<bar> + 1) / 2 ^ 52" by (simp add: divide_right_mono)
    finally show ?thesis .
  next
    case False
    then have "ulp x = 2 powi (- 1074)" by (simp add: ulp_def max_def)
    also have "\<dots> \<le> 2 powi (- 52)" by (intro power_int_increasing) simp_all
    also have "\<dots> = 1 / 2 ^ 52" by (simp add: power_int_minus_divide)
    also have "\<dots> \<le> (\<bar>x\<bar> + 1) / 2 ^ 52" by (simp add: divide_right_mono)
    finally show ?thesis .
  qed
qed

lemma rnd_err_rel: "\<bar>rnd x - x\<bar> \<le> (\<bar>x\<bar> + 1) / 2 ^ 53"
proof -
  have "\<bar>rnd x - x\<bar> \<le> ulp x / 2" by (rule rnd_err)
  also have "\<dots> \<le> ((\<bar>x\<bar> + 1) / 2 ^ 52) / 2" using ulp_le[of x] by simp
  finally show ?thesis by simp
qed

lemma rnd_exact:
  assumes x: "x = of_int m * 2 powi j" and m: "\<bar>m\<bar> < 2 ^ 53" and j: "- 1074 \<le> j"
  shows "rnd x = x"
proof (cases "x = 0")
  case True
  then show ?thesis by simp
next
  case False
  then have pos: "0 < \<bar>x\<bar>" by simp
  define E where "E = max (expo \<bar>x\<bar>) (- 1022)"
  have "\<bar>x\<bar> = of_int \<bar>m\<bar> * 2 powi j" by (simp add: x abs_mult)
  also have "\<dots> < of_int (2 ^ 53) * 2 powi j"
    using m by (intro mult_strict_right_mono)
      (simp_all only: of_int_less_iff zero_less_power_int zero_less_numeral)
  also have "\<dots> = 2 powi (j + 53)" by (simp add: power_int_add)
  finally have lt: "\<bar>x\<bar> < 2 powi (j + 53)" .
  have "expo \<bar>x\<bar> < j + 53"
  proof (rule ccontr)
    assume "\<not> expo \<bar>x\<bar> < j + 53"
    then have "(2::real) powi (j + 53) \<le> 2 powi (expo \<bar>x\<bar>)"
      by (intro power_int_increasing) simp_all
    with expo_bounds[OF pos] lt show False by linarith
  qed
  then have E: "E \<le> j + 52" using j by (simp add: E_def)
  define k where "k = nat (j + 52 - E)"
  have jk: "j = int k + (E - 52)" using E by (simp add: k_def)
  have u: "ulp x = 2 powi (E - 52)" by (simp add: ulp_def E_def)
  have "x / ulp x = x / 2 powi (E - 52)" by (simp only: u)
  also have "\<dots> = of_int m * (2 powi (int k + (E - 52)) / 2 powi (E - 52))"
    by (subst x) (simp add: jk[symmetric])
  also have "2 powi (int k + (E - 52)) / 2 powi (E - 52) = (2::real) ^ k"
    by (simp add: power_int_add)
  finally have q: "x / ulp x = of_int (m * 2 ^ k)" by simp
  have "rnd x = of_int (m * 2 ^ k) * ulp x"
    using False by (simp add: rnd_def q del: of_int_mult of_int_power)
  also have "\<dots> = x / ulp x * ulp x" by (simp only: q)
  also have "\<dots> = x" by simp
  finally show ?thesis .
qed

lemma rnd_of_int: "\<bar>n\<bar> < 2 ^ 53 \<Longrightarrow> rnd (of_int n) = of_int n"
  using rnd_exact[of "of_int n" n 0] by simp

lemma rnd_eval:
  assumes "2 powi e \<le> \<bar>x\<bar>" "\<bar>x\<bar> < 2 powi (e + 1)" "- 1022 \<le> e"
  shows "rnd x = of_int (rne (x / 2 powi (e - 52))) * 2 powi (e - 52)"
proof -
  have "expo \<bar>x\<bar> = e" using assms(1,2) by (rule expo_eqI)
  moreover have "x \<noteq> 0"
  proof
    assume "x = 0"
    with assms(1) have "2 powi e \<le> (0::real)" by simp
    moreover have "0 < (2::real) powi e" by simp
    ultimately show False by linarith
  qed
  ultimately show ?thesis using assms(3) by (simp add: rnd_def ulp_def max_def)
qed

lemma rnd_mantissa:
  assumes "x \<noteq> 0"
  shows "\<bar>rne (x / ulp x)\<bar> \<le> 2 ^ 53"
proof -
  have pos: "0 < \<bar>x\<bar>" using assms by simp
  define E where "E = max (expo \<bar>x\<bar>) (- 1022)"
  have u: "ulp x = 2 powi (E - 52)" by (simp add: ulp_def E_def)
  have "\<bar>x\<bar> < 2 powi (expo \<bar>x\<bar> + 1)" using expo_bounds[OF pos] by simp
  also have "\<dots> \<le> 2 powi (E + 1)" by (intro power_int_increasing) (simp_all add: E_def)
  finally have "\<bar>x\<bar> / ulp x < 2 powi (E + 1) / 2 powi (E - 52)"
    by (simp add: u divide_strict_right_mono)
  also have "2 powi (E + 1) / 2 powi (E - 52) = (2::real) powi 53"
    by (simp add: power_int_diff[symmetric])
  finally have "\<bar>x / ulp x\<bar> \<le> of_int (2 ^ 53)" by (simp add: less_imp_le)
  then show ?thesis by (rule rne_abs_le)
qed

lemma rnd_idem [simp]: "rnd (rnd x) = rnd x"
proof (cases "x = 0")
  case True
  then show ?thesis by simp
next
  case False
  define E where "E = max (expo \<bar>x\<bar>) (- 1022)"
  define M where "M = rne (x / ulp x)"
  have u: "ulp x = 2 powi (E - 52)" by (simp add: ulp_def E_def)
  have r: "rnd x = of_int M * 2 powi (E - 52)" using False by (simp add: rnd_def M_def u)
  have E: "- 1022 \<le> E" by (simp add: E_def)
  have M: "\<bar>M\<bar> \<le> 2 ^ 53" unfolding M_def using False by (rule rnd_mantissa)
  show ?thesis
  proof (cases "\<bar>M\<bar> < 2 ^ 53")
    case True
    show ?thesis by (rule rnd_exact[OF r True]) (use E in simp)
  next
    case False
    with M have "M = 2 ^ 53 \<or> M = - (2 ^ 53)" by auto
    then have "rnd x = of_int (M div 2) * 2 powi (E - 51)" "\<bar>M div 2\<bar> < 2 ^ 53"
      by (auto simp: r power_int_diff power_int_add field_simps)
    then show ?thesis by (rule rnd_exact) (use E in simp)
  qed
qed

lemma roundF_Fin:
  assumes "\<bar>x\<bar> \<le> 2 ^ 1000"
  shows "roundF x = Fin (rnd x)"
proof -
  have "\<bar>rnd x - x\<bar> \<le> (\<bar>x\<bar> + 1) / 2 ^ 53" by (rule rnd_err_rel)
  also have "\<dots> \<le> (2 ^ 1000 + 1) / 2 ^ 53" using assms by (simp add: divide_right_mono)
  also have "\<dots> \<le> 2 ^ 1000" by simp
  finally have "\<bar>rnd x\<bar> \<le> 2 ^ 1000 + 2 ^ 1000" using assms by linarith
  also have "\<dots> < (2::real) ^ 1024" by simp
  finally have "\<bar>rnd x\<bar> < 2 ^ 1024" .
  then show ?thesis by (auto simp: roundF_def Let_def)
qed

lemma roundF_exact:
  assumes x: "x = of_int m * 2 powi j" and m: "\<bar>m\<bar> < 2 ^ 53" and j: "- 1074 \<le> j" "j \<le> 900"
  shows "roundF x = Fin x"
proof -
  have "\<bar>x\<bar> = of_int \<bar>m\<bar> * 2 powi j" by (simp add: x abs_mult)
  also have "\<dots> \<le> of_int (2 ^ 53) * 2 powi j"
    using m by (intro mult_right_mono)
      (simp_all only: of_int_le_iff zero_le_power_int zero_le_numeral less_imp_le)
  also have "\<dots> \<le> of_int (2 ^ 53) * 2 powi 900"
    using j by (intro mult_left_mono power_int_increasing) simp_all
  also have "\<dots> \<le> 2 ^ 1000" by simp
  finally have "\<bar>x\<bar> \<le> 2 ^ 1000" .
  then show ?thesis using rnd_exact[OF x m j(1)] by (simp add: roundF_Fin)
qed

lemma roundF_0 [simp]: "roundF 0 = Fin 0"
  using roundF_exact[of 0 0 0] by simp

lemma roundF_1 [simp]: "roundF 1 = Fin 1"
  using roundF_exact[of 1 1 0] by simp

lemma roundF_numeral [simp]:
  "numeral k < (2 ^ 53 :: int) \<Longrightarrow> roundF (numeral k) = Fin (numeral k)"
  using roundF_exact[of "numeral k" "numeral k" 0] by simp

lemma roundF_neg_numeral [simp]:
  "numeral k < (2 ^ 53 :: int) \<Longrightarrow> roundF (- numeral k) = Fin (- numeral k)"
  using roundF_exact[of "- numeral k" "- numeral k" 0] by simp

lemma roundF_dyadic:
  "\<bar>m\<bar> < 2 ^ 53 \<Longrightarrow> k \<le> 1074 \<Longrightarrow> roundF (of_int m / 2 ^ k) = Fin (of_int m / 2 ^ k)"
  using roundF_exact[of "of_int m / 2 ^ k" m "- int k"]
  by (simp add: power_int_minus_divide)

lemma roundF_val:
  assumes "2 powi e \<le> \<bar>x\<bar>" "\<bar>x\<bar> < 2 powi (e + 1)" "- 1022 \<le> e" "e \<le> 999"
    and "rne (x / 2 powi (e - 52)) = m" and "y = of_int m * 2 powi (e - 52)"
  shows "roundF x = Fin y"
proof -
  have "\<bar>x\<bar> < 2 powi (e + 1)" by fact
  also have "\<dots> \<le> 2 powi 1000" using assms(4) by (intro power_int_increasing) simp_all
  finally have "\<bar>x\<bar> \<le> 2 ^ 1000" by simp
  then show ?thesis using rnd_eval[OF assms(1-3)] assms(5,6) by (simp add: roundF_Fin)
qed

lemma rnd_1 [simp]: "rnd 1 = 1"
  using rnd_of_int[of 1] by simp

lemma roundF_neg_1 [simp]: "roundF (- 1) = Fin (- 1)"
  using roundF_exact[of "- 1" "- 1" 0] by simp

lemma roundF_half [simp]: "roundF (1/2) = Fin (1/2)"
  using roundF_dyadic[of 1 1] by simp

lemma roundF_quarter [simp]: "roundF (1/4) = Fin (1/4)"
  using roundF_dyadic[of 1 2] by simp

lemma roundF_three_quarters [simp]: "roundF (3/4) = Fin (3/4)"
  using roundF_dyadic[of 3 2] by simp

lemma sint_real_bound: "\<bar>real_of_int (sint (w :: int64))\<bar> \<le> 2 ^ 63"
proof -
  have "- (2 ^ 63) \<le> sint w" "sint w < 2 ^ 63"
    using sint_ge[of w] sint_lt[of w] by simp_all
  then have "\<bar>sint w\<bar> \<le> 2 ^ 63" by simp
  then have "real_of_int \<bar>sint w\<bar> \<le> real_of_int (2 ^ 63)" by (simp only: of_int_le_iff)
  then show ?thesis by simp
qed

lemma ofInt64_Fin: "ofInt64 w = Fin (rnd (of_int (sint w)))"
proof -
  have "\<bar>real_of_int (sint w)\<bar> \<le> 2 ^ 63" by (rule sint_real_bound)
  also have "\<dots> \<le> (2::real) ^ 1000" by simp
  finally show ?thesis by (simp add: ofInt64_def roundF_Fin)
qed

lemma ofInt64_small: "\<bar>sint w\<bar> < 2 ^ 53 \<Longrightarrow> ofInt64 w = Fin (of_int (sint w))"
  using rnd_of_int[of "sint w"] by (simp add: ofInt64_Fin)

lemma ofInt64_0 [simp]: "ofInt64 0 = Fin 0"
  by (simp add: ofInt64_def)

lemma ofInt64_1 [simp]: "ofInt64 1 = Fin 1"
  by (simp add: ofInt64_def)

lemma ofLen_small: "n < 2 ^ 53 \<Longrightarrow> ofLen n = Fin (of_nat n)"
  using roundF_exact[of "of_nat n" "int n" 0] by (simp add: ofLen_def)

lemma ofInt64_numeral [simp]:
  assumes k: "numeral k < (2 ^ 53 :: int)"
  shows "ofInt64 (numeral k) = Fin (numeral k)"
proof -
  have lt: "(numeral k :: int) < 2 ^ 63" using k by (rule less_trans) simp
  have ge: "- (2 ^ 63) \<le> (numeral k :: int)" by (rule order_trans[of _ 0]) simp_all
  have s: "sint (numeral k :: int64) = signed_take_bit 63 (numeral k)" by simp
  have e: "sint (numeral k :: int64) = numeral k"
    unfolding s using ge lt by (rule signed_take_bit_int_eq_self)
  have "\<bar>sint (numeral k :: int64)\<bar> < 2 ^ 53" unfolding e using k by simp
  then have "ofInt64 (numeral k) = Fin (of_int (sint (numeral k :: int64)))"
    by (rule ofInt64_small)
  then show ?thesis unfolding e by simp
qed

subsection \<open>Comparisons\<close>

lemma flt_asym: "flt a b \<Longrightarrow> \<not> flt b a"
  by (cases a; cases b) simp_all

lemma flt_negtrans: "b \<noteq> NaN \<Longrightarrow> flt a c \<Longrightarrow> flt a b \<or> flt b c"
  by (cases a; cases b; cases c) auto

lemma flt_not_NaN: "flt a b \<Longrightarrow> a \<noteq> NaN \<and> b \<noteq> NaN"
  by (cases a; cases b) simp_all

lemma fge_iff_not_flt: "a \<noteq> NaN \<Longrightarrow> b \<noteq> NaN \<Longrightarrow> fge a b \<longleftrightarrow> \<not> flt a b"
  by (cases a; cases b) (auto simp: fge_def)

lemma flt_not_fge: "flt a b \<Longrightarrow> \<not> fge a b"
  by (cases a; cases b) (auto simp: fge_def)

subsection \<open>The doubles of 0.94, 0.01 and 0.95\<close>

lemma d94: "fdiv (ofInt64 94) (ofInt64 100) = Fin d94"
  by (simp, rule roundF_val[where e = "-1" and m = 8466767299456532])
     (simp_all add: rne_def Let_def d94_def)

lemma d01: "fdiv (ofInt64 1) (ofInt64 100) = Fin d01"
  by (simp, rule roundF_val[where e = "-7" and m = 5764607523034235])
     (simp_all add: rne_def Let_def d01_def)

lemma d95: "fdiv (ofInt64 95) (ofInt64 100) = Fin d95"
  by (simp, rule roundF_val[where e = "-1" and m = 8556839292003942])
     (simp_all add: rne_def Let_def d95_def)

lemma sum_94_01: "fadd (Fin d94) (Fin d01) = Fin d95"
  by (simp, rule roundF_val[where e = "-1" and m = 8556839292003942])
     (simp_all add: rne_def Let_def d94_def d01_def d95_def)

lemma roundF_d94 [simp]: "roundF d94 = Fin d94"
  using roundF_dyadic[of 8466767299456532 53] by (simp add: d94_def)

lemma roundF_d95 [simp]: "roundF d95 = Fin d95"
  using roundF_dyadic[of 8556839292003942 53] by (simp add: d95_def)

lemma roundF_d01 [simp]: "roundF d01 = Fin d01"
  using roundF_dyadic[of 5764607523034235 59] by (simp add: d01_def)

lemma score_b: "fsub (fsub (Fin d95) (Fin d94)) (Fin d01) = Fin (5 / 2 ^ 59)"
  using roundF_dyadic[of 90071992547410 53] roundF_dyadic[of 5 59]
  by (simp add: fsub_def d94_def d95_def d01_def)

lemma half: "fdiv (ofInt64 500000) (ofInt64 1000000) = Fin (1/2)"
  by simp

lemma roundF_d94_d01 [simp]: "roundF (d94 + d01) = Fin d95"
  using sum_94_01 by simp

lemma roundF_d95_d94 [simp]: "roundF (d95 - d94) = Fin (d95 - d94)"
  using roundF_dyadic[of 90071992547410 53] by (simp add: d94_def d95_def)

lemma roundF_d95_d94_d01 [simp]: "roundF (d95 - d94 - d01) = Fin (5 / 2 ^ 59)"
  using score_b by (simp add: fsub_def)

lemma roundF_47_50 [simp]: "roundF (47 / 50) = Fin d94"
  using d94 by simp

lemma roundF_1_100 [simp]: "roundF (1 / 100) = Fin d01"
  using d01 by simp

lemma roundF_19_20 [simp]: "roundF (19 / 20) = Fin d95"
  using d95 by simp

lemma d94_less_d95 [simp]: "d94 < d95"
  by (simp add: d94_def d95_def)

lemma d01_pos [simp]: "0 < d01"
  by (simp add: d01_def)

lemma d01_nonzero [simp]: "d01 \<noteq> 0"
  by (simp add: d01_def)

lemma d94_nonzero [simp]: "d94 \<noteq> 0"
  by (simp add: d94_def)

section \<open>Worst-fit placement\<close>

lemma scoreCpus_fitting:
  "scoreCpus alloc u order =
     map (\<lambda>(c, util). \<lparr>cpu = c, score = headroomOf alloc u util\<rparr>) (fitting alloc u order)"
  by (induction order) (auto simp: fitting_def headroomOf_def Let_def)

lemma map_cpu_scoreCpus: "map cpu (scoreCpus alloc u order) = map fst (fitting alloc u order)"
  by (simp add: scoreCpus_fitting case_prod_unfold comp_def)

lemma distinct_fitting:
  "distinct (map fst order) \<Longrightarrow> distinct (map fst (fitting alloc u order))"
  by (simp add: fitting_def distinct_map_filter)

lemma score_headroom:
  assumes "distinct (map fst order)" and "x \<in> set (scoreCpus alloc u order)"
  shows "score x = headroom alloc u order (cpu x)"
proof -
  from assms(2) obtain c util
    where cu: "(c, util) \<in> set order" "x = \<lparr>cpu = c, score = headroomOf alloc u util\<rparr>"
    by (auto simp: scoreCpus_fitting fitting_def)
  with assms(1) have "map_of order c = Some util" by simp
  with cu show ?thesis by (simp add: headroom_def utilAt_def)
qed

lemma score_not_NaN:
  assumes "x \<in> set (scoreCpus alloc u order)"
  shows "score x \<noteq> NaN"
proof -
  from assms have "fgt (score x) (Fin 0)"
    by (auto simp: scoreCpus_fitting fitting_def)
  then show ?thesis using flt_not_NaN[of "Fin 0" "score x"] by (simp add: fgt_def)
qed

lemma set_insertStable [simp]: "set (insertStable lessFn x ys) = insert x (set ys)"
  by (induction ys) auto

lemma length_insertStable [simp]: "length (insertStable lessFn x ys) = Suc (length ys)"
  by (induction ys) auto

lemma distinct_insertStable:
  "distinct (map f (insertStable lessFn x ys)) \<longleftrightarrow> distinct (map f (x # ys))"
  by (induction ys) auto

lemma set_SliceStable [simp]: "set (SliceStable lessFn xs) = set xs"
  by (induction xs) (simp_all add: SliceStable_def)

lemma length_SliceStable [simp]: "length (SliceStable lessFn xs) = length xs"
  by (induction xs) (simp_all add: SliceStable_def)

lemma distinct_SliceStable:
  "distinct (map f (SliceStable lessFn xs)) \<longleftrightarrow> distinct (map f xs)"
proof (induction xs)
  case Nil
  then show ?case by (simp add: SliceStable_def)
next
  case (Cons x xs)
  have "SliceStable lessFn (x # xs) = insertStable lessFn x (SliceStable lessFn xs)"
    by (simp add: SliceStable_def)
  then show ?case using Cons by (simp add: distinct_insertStable)
qed

text \<open>Sorting by descending score: afterwards no element has a smaller score than a later one.\<close>

lemma sorted_insertStable:
  assumes "sorted_wrt (\<lambda>a b. \<not> flt (score a) (score b)) ys"
    and "\<forall>z \<in> set (x # ys). score z \<noteq> NaN"
  shows "sorted_wrt (\<lambda>a b. \<not> flt (score a) (score b))
           (insertStable (\<lambda>a b. fgt (score a) (score b)) x ys)"
  using assms
proof (induction ys)
  case Nil
  then show ?case by simp
next
  case (Cons y ys)
  show ?case
  proof (cases "fgt (score y) (score x)")
    case True
    then have "\<not> flt (score y) (score x)" using flt_asym by (auto simp: fgt_def)
    with True Cons show ?thesis by auto
  next
    case False
    then have xy: "\<not> flt (score x) (score y)" by (simp add: fgt_def)
    have "\<not> flt (score x) (score z)" if "z \<in> set ys" for z
    proof
      assume "flt (score x) (score z)"
      moreover have "score y \<noteq> NaN" using Cons.prems(2) by simp
      ultimately have "flt (score x) (score y) \<or> flt (score y) (score z)"
        by (rule flt_negtrans[rotated])
      with xy Cons.prems(1) that show False by auto
    qed
    with False xy Cons.prems(1) show ?thesis by auto
  qed
qed

lemma sorted_SliceStable:
  assumes "\<forall>z \<in> set xs. score z \<noteq> NaN"
  shows "sorted_wrt (\<lambda>a b. \<not> flt (score a) (score b))
           (SliceStable (\<lambda>a b. fgt (score a) (score b)) xs)"
  using assms
proof (induction xs)
  case Nil
  then show ?case by (simp add: SliceStable_def)
next
  case (Cons x xs)
  have "SliceStable (\<lambda>a b. fgt (score a) (score b)) (x # xs)
          = insertStable (\<lambda>a b. fgt (score a) (score b)) x
              (SliceStable (\<lambda>a b. fgt (score a) (score b)) xs)"
    by (simp add: SliceStable_def)
  moreover have "sorted_wrt (\<lambda>a b. \<not> flt (score a) (score b))
      (insertStable (\<lambda>a b. fgt (score a) (score b)) x
              (SliceStable (\<lambda>a b. fgt (score a) (score b)) xs))"
    by (rule sorted_insertStable) (use Cons in auto)
  ultimately show ?case by simp
qed

lemma worstFit_sorted:
  assumes "0 \<le> sint n" "sint n \<le> int (length (fitting (allocableRtUtil p) u order))"
  shows "worstFit p order u n =
           map cpu (take (nat (sint n))
             (SliceStable (\<lambda>a b. fgt (score a) (score b))
                (scoreCpus (allocableRtUtil p) u order)))"
  using assms by (simp add: worstFit_def Let_def scoreCpus_fitting)

text \<open>
  C1, as amended. Let the snapshot be enumerated by \<open>order\<close> (every CPU once), and call
  a CPU fitting when the \<open>float64\<close> value of \<open>allocableRtUtil - util - u\<close>, its
  headroom, is greater than zero. Whenever the requested count \<open>n\<close> is at least zero
  and at most the number of fitting CPUs, worst-fit returns exactly \<open>n\<close> distinct CPUs,
  all of them fitting, and every returned CPU has a headroom greater than or equal to that
  of every fitting CPU left out.
\<close>

theorem worstFit_takes_largest_headroom:
  assumes dist: "distinct (map fst order)"
    and n0: "0 \<le> sint n"
    and nle: "sint n \<le> int (length (fitting (allocableRtUtil p) u order))"
  shows "length (worstFit p order u n) = nat (sint n)
       \<and> distinct (worstFit p order u n)
       \<and> set (worstFit p order u n) \<subseteq> fst ` set (fitting (allocableRtUtil p) u order)
       \<and> (\<forall>c \<in> set (worstFit p order u n).
            \<forall>d \<in> fst ` set (fitting (allocableRtUtil p) u order) - set (worstFit p order u n).
               fge (headroom (allocableRtUtil p) u order c)
                   (headroom (allocableRtUtil p) u order d))"
proof -
  define A where "A = allocableRtUtil p"
  define k where "k = nat (sint n)"
  define sc where "sc = scoreCpus A u order"
  define srt where "srt = SliceStable (\<lambda>a b. fgt (score a) (score b)) sc"
  have wf: "worstFit p order u n = map cpu (take k srt)"
    using worstFit_sorted[OF n0 nle] by (simp add: srt_def sc_def A_def k_def)
  have len_sc: "length sc = length (fitting A u order)"
    by (simp add: sc_def scoreCpus_fitting)
  have cpus_sc: "map cpu sc = map fst (fitting A u order)"
    by (simp add: sc_def map_cpu_scoreCpus)
  have dist_sc: "distinct (map cpu sc)"
    using dist by (simp add: cpus_sc distinct_fitting)
  have set_srt: "set srt = set sc" by (simp add: srt_def)
  have dist_srt: "distinct (map cpu srt)"
    using dist_sc by (simp add: srt_def distinct_SliceStable)
  have 1: "length (worstFit p order u n) = nat (sint n)"
    using nle n0 by (simp add: wf srt_def len_sc A_def k_def)
  have "distinct (take k (map cpu srt))"
    using dist_srt by (rule distinct_take)
  then have 2: "distinct (worstFit p order u n)"
    by (simp add: wf take_map)
  have 3: "set (worstFit p order u n) \<subseteq> fst ` set (fitting A u order)"
  proof -
    have "set (map cpu (take k srt)) \<subseteq> set (map cpu srt)"
      by (auto dest: in_set_takeD)
    also have "\<dots> = set (map cpu sc)" using set_srt by simp
    also have "\<dots> = fst ` set (fitting A u order)" by (simp add: cpus_sc)
    finally show ?thesis by (simp add: wf)
  qed
  have nan: "\<forall>z \<in> set sc. score z \<noteq> NaN"
    using score_not_NaN by (auto simp: sc_def)
  have sorted_srt: "sorted_wrt (\<lambda>a b. \<not> flt (score a) (score b)) srt"
    unfolding srt_def using nan by (rule sorted_SliceStable)
  have 4: "fge (headroom A u order c) (headroom A u order d)"
    if c: "c \<in> set (worstFit p order u n)"
      and d: "d \<in> fst ` set (fitting A u order) - set (worstFit p order u n)" for c d
  proof -
    from c obtain x where x: "x \<in> set (take k srt)" "cpu x = c"
      by (auto simp: wf)
    from d have "d \<in> set (map cpu srt)" using set_srt cpus_sc
      by (metis DiffD1 list.set_map)
    then obtain y where y: "y \<in> set srt" "cpu y = d" by auto
    have "y \<notin> set (take k srt)" using d y by (auto simp: wf)
    with y have ydrop: "y \<in> set (drop k srt)"
      by (metis Un_iff append_take_drop_id set_append)
    have "sorted_wrt (\<lambda>a b. \<not> flt (score a) (score b)) (take k srt @ drop k srt)"
      using sorted_srt by simp
    then have "\<not> flt (score x) (score y)"
      using x(1) ydrop by (auto simp: sorted_wrt_append simp del: append_take_drop_id)
    moreover have xs: "x \<in> set sc" using x set_srt by (auto dest: in_set_takeD)
    moreover have ys: "y \<in> set sc" using y set_srt by simp
    ultimately have "fge (score x) (score y)"
      using nan by (simp add: fge_iff_not_flt)
    moreover have "score x = headroom A u order c"
      using score_headroom[OF dist, of x A u] xs x by (simp add: sc_def)
    moreover have "score y = headroom A u order d"
      using score_headroom[OF dist, of y A u] ys y by (simp add: sc_def)
    ultimately show ?thesis by simp
  qed
  from 1 2 3 4 show ?thesis unfolding A_def by blast
qed

lemma worstFit_fourCpus: "worstFit policy1 fourCpus (Fin (1/4)) 2 = [2, 0]"
  by (simp add: worstFit_def policy1_def fourCpus_def SliceStable_def Let_def fsub_def fgt_def)

lemma fitting_fourCpus:
  "fitting (allocableRtUtil policy1) (Fin (1/4)) fourCpus
     = [(0, Fin (1/4)), (1, Fin (1/2)), (2, Fin 0)]"
  by (simp add: fitting_def headroomOf_def policy1_def fourCpus_def fsub_def fgt_def)

text \<open>
  The theorem on four CPUs with utilisations 0.25, 0.5, 0 and 0.75, a ceiling of 1,
  \<open>u = 0.25\<close> and two CPUs requested. CPUs 0, 1 and 2 fit, CPUs 2 and 0 are taken, and
  the headroom of CPU 1, which is left out, does not exceed theirs.
\<close>

theorem worstFit_takes_largest_headroom_witness:
  "distinct (map fst fourCpus)
   \<and> 0 \<le> sint (2 :: int64)
   \<and> sint (2 :: int64) \<le> int (length (fitting (allocableRtUtil policy1) (Fin (1/4)) fourCpus))
   \<and> worstFit policy1 fourCpus (Fin (1/4)) 2 = [2, 0]
   \<and> length (worstFit policy1 fourCpus (Fin (1/4)) 2) = nat (sint (2 :: int64))
   \<and> fge (headroom (allocableRtUtil policy1) (Fin (1/4)) fourCpus 0)
          (headroom (allocableRtUtil policy1) (Fin (1/4)) fourCpus 1)
   \<and> fge (headroom (allocableRtUtil policy1) (Fin (1/4)) fourCpus 2)
          (headroom (allocableRtUtil policy1) (Fin (1/4)) fourCpus 1)"
proof -
  have d: "distinct (map fst fourCpus)" by (simp add: fourCpus_def)
  have n: "0 \<le> sint (2 :: int64)" by simp
  have c: "sint (2 :: int64) \<le> int (length (fitting (allocableRtUtil policy1) (Fin (1/4)) fourCpus))"
    by (simp add: fitting_fourCpus)
  note inst = worstFit_takes_largest_headroom[OF d n c]
  have left_out: "fst ` set (fitting (allocableRtUtil policy1) (Fin (1/4)) fourCpus)
                    - set (worstFit policy1 fourCpus (Fin (1/4)) 2) = {1}"
    by (auto simp: fitting_fourCpus worstFit_fourCpus)
  have "fge (headroom (allocableRtUtil policy1) (Fin (1/4)) fourCpus 0)
          (headroom (allocableRtUtil policy1) (Fin (1/4)) fourCpus 1)"
    using inst left_out by (simp add: worstFit_fourCpus)
  moreover have "fge (headroom (allocableRtUtil policy1) (Fin (1/4)) fourCpus 2)
          (headroom (allocableRtUtil policy1) (Fin (1/4)) fourCpus 1)"
    using inst left_out by (simp add: worstFit_fourCpus)
  ultimately show ?thesis using inst d n c worstFit_fourCpus by simp
qed

text \<open>
  The claim as stated fails. On one CPU that carries 0.94 (the \<open>float64\<close> value of
  94/100), with a ceiling of 0.95 and \<open>u = 0.01\<close>, the sum \<open>util + u\<close> rounds to the
  ceiling itself, so no CPU satisfies \<open>util + u < allocableRtUtil\<close>; but
  \<open>allocableRtUtil - util - u\<close> evaluates to \<open>5 * 2^-59\<close>, which is positive, and
  worst-fit selects CPU 0. The count fails too: with one idle CPU, a ceiling of 1,
  \<open>u = 0.5\<close> and two CPUs requested, the list returned is empty.
\<close>

theorem worstFit_candidates_counterexample:
  "specCandidates (allocableRtUtil policy95) (fdiv (ofInt64 1) (ofInt64 100))
       [(0, fdiv (ofInt64 94) (ofInt64 100))] = []
   \<and> worstFit policy95 [(0, fdiv (ofInt64 94) (ofInt64 100))]
        (fdiv (ofInt64 1) (ofInt64 100)) 1 = [0]
   \<and> specCandidates (allocableRtUtil policy1) (Fin (1/2)) [(0, Fin 0)] = [(0, Fin 0)]
   \<and> length (worstFit policy1 [(0, Fin 0)] (Fin (1/2)) 2) \<noteq> 2"
proof -
  have 1: "specCandidates (allocableRtUtil policy95) (fdiv (ofInt64 1) (ofInt64 100))
       [(0, fdiv (ofInt64 94) (ofInt64 100))] = []"
    by (simp add: policy95_def specCandidates_def)
  have 2: "worstFit policy95 [(0, fdiv (ofInt64 94) (ofInt64 100))]
        (fdiv (ofInt64 1) (ofInt64 100)) 1 = [0]"
    by (simp add: policy95_def worstFit_def Let_def fsub_def fgt_def SliceStable_def)
  have 3: "specCandidates (allocableRtUtil policy1) (Fin (1/2)) [(0, Fin 0)] = [(0, Fin 0)]"
    by (simp add: specCandidates_def policy1_def)
  have 4: "length (worstFit policy1 [(0, Fin 0)] (Fin (1/2)) 2) \<noteq> 2"
    by (simp add: worstFit_def policy1_def Let_def fsub_def fgt_def)
  from 1 2 3 4 show ?thesis by simp
qed

section \<open>The order of enumeration\<close>

text \<open>
  C7 fails on the code. Worst-fit builds the list that it sorts by ranging over a Go
  map, so the order of that list is not fixed; the stable sort keeps CPUs of equal
  headroom in that order. The snapshot of two idle CPUs has the enumerations 0, 1 and
  1, 0: with a ceiling of 1, \<open>u = 0.5\<close> and one CPU requested both CPUs have the
  headroom 0.5, and worst-fit returns CPU 0 under the first enumeration and CPU 1 under
  the second. Two runs on the same snapshot can return different lists, and the higher
  CPU id can be selected first.
\<close>

theorem worstFit_depends_on_range_order:
  "enumerates [(0, Fin 0), (1, Fin 0)] twoIdleCpus
   \<and> enumerates [(1, Fin 0), (0, Fin 0)] twoIdleCpus
   \<and> worstFit policy1 [(0, Fin 0), (1, Fin 0)] (Fin (1/2)) 1 = [0]
   \<and> worstFit policy1 [(1, Fin 0), (0, Fin 0)] (Fin (1/2)) 1 = [1]"
proof -
  have 1: "enumerates [(0, Fin 0), (1, Fin 0)] twoIdleCpus"
    by (auto simp: enumerates_def twoIdleCpus_def fun_eq_iff)
  have 2: "enumerates [(1, Fin 0), (0, Fin 0)] twoIdleCpus"
    by (auto simp: enumerates_def twoIdleCpus_def fun_eq_iff)
  have 3: "worstFit policy1 [(0, Fin 0), (1, Fin 0)] (Fin (1/2)) 1 = [0]"
    by (simp add: worstFit_def policy1_def SliceStable_def Let_def fsub_def fgt_def)
  have 4: "worstFit policy1 [(1, Fin 0), (0, Fin 0)] (Fin (1/2)) 1 = [1]"
    by (simp add: worstFit_def policy1_def SliceStable_def Let_def fsub_def fgt_def)
  from 1 2 3 4 show ?thesis by simp
qed

section \<open>Admission failure and removal\<close>

lemma requestedUtil_halfCpu: "requestedUtil halfCpu = Fin (1/2)"
  by (simp add: requestedUtil_def rtRequests_def halfCpu_def)

lemma requestedUtil_containerA: "requestedUtil containerA = Fin d94"
  by (simp add: requestedUtil_def rtRequests_def containerA_def)

lemma requestedUtil_containerB: "requestedUtil containerB = Fin d01"
  by (simp add: requestedUtil_def rtRequests_def containerB_def)

lemma afterFirstAdd_eq:
  "afterFirstAdd = \<lparr>assignments = [''c1'' \<mapsto> {0}], defaultCPUSet = {0},
      containerToUtil = [''c1'' \<mapsto> Fin (1/2)], cpuToUtil = [0 \<mapsto> Fin (1/2)]\<rparr>"
  by (auto simp: afterFirstAdd_def AddContainer_def rtRequests_def requestedUtil_def
      halfCpu_def GetRtCPUSetAndUtilOfContainer_def GetCPUSet_def NewRtState_def emptyNode_def
      worstFit_def policy1_def SliceStable_def Let_def fsub_def fgt_def
      SetRtCPUSetAndUtilOfContainer_def commitRt_def SetCPUSet_def addToCpus_def utilAt_def
      fun_eq_iff)

lemma afterA_eq:
  "afterA = \<lparr>assignments = [''a'' \<mapsto> {0}], defaultCPUSet = {0},
      containerToUtil = [''a'' \<mapsto> Fin d94], cpuToUtil = [0 \<mapsto> Fin d94]\<rparr>"
  by (auto simp: afterA_def AddContainer_def rtRequests_def requestedUtil_def
      containerA_def GetRtCPUSetAndUtilOfContainer_def GetCPUSet_def NewRtState_def emptyNode_def
      worstFit_def policy95_def SliceStable_def Let_def fsub_def fgt_def
      SetRtCPUSetAndUtilOfContainer_def commitRt_def SetCPUSet_def addToCpus_def utilAt_def
      fun_eq_iff)

lemma enumerates_afterFirstAdd: "enumerates [(0, Fin (1/2))] (CpuToUtilMap afterFirstAdd)"
  by (simp add: afterFirstAdd_eq enumerates_def CpuToUtilMap_def)

lemma enumerates_afterA: "enumerates [(0, Fin d94)] (CpuToUtilMap afterA)"
  by (simp add: afterA_eq enumerates_def CpuToUtilMap_def)

lemma nothing_fits_afterFirstAdd:
  "int (length (fitting (allocableRtUtil policy1) (requestedUtil halfCpu) [(0, Fin (1/2))]))
     < sint (CpuRt halfCpu)"
  by (simp add: requestedUtil_def rtRequests_def fitting_def headroomOf_def policy1_def
      fsub_def fgt_def halfCpu_def)

text \<open>
  C2, as amended. Let \<open>order\<close> enumerate the state's cpuUtil map and let the request
  have \<open>u = runtime/period > 0\<close>. If the container has no real-time assignment yet and
  fewer than \<open>cpuCount\<close> CPUs fit (the \<open>float64\<close> value of
  \<open>allocableRtUtil - util - u\<close> is positive), then \<open>AddContainer\<close> returns the
  doesn't-fit error and the state (assignments, container utilisations, cpuUtil map) is
  exactly the one it was given. If the container already has a real-time assignment,
  \<open>AddContainer\<close> returns success, whatever the CPUs carry, and the state is again the
  one it was given.
\<close>

theorem AddContainer_DoesNotFit_unchanged:
  assumes "enumerates order (CpuToUtilMap s)"
    and "fgt (requestedUtil container) (Fin 0)"
  shows "(GetRtCPUSetAndUtilOfContainer s containerID = None
          \<and> int (length (fitting (allocableRtUtil p) (requestedUtil container) order))
                < sint (CpuRt container)
          \<longrightarrow> AddContainer p order s container containerID
                = (Some (DoesNotFit containerID), s))
       \<and> (GetRtCPUSetAndUtilOfContainer s containerID \<noteq> None
          \<longrightarrow> AddContainer p order s container containerID = (None, s))"
proof -
  have nz: "\<not> feq (requestedUtil container) (Fin 0)"
    using assms(2) by (cases "requestedUtil container") (simp_all add: fgt_def)
  show ?thesis
    using nz by (simp add: AddContainer_def rtRequests_def worstFit_def Let_def scoreCpus_fitting)
qed

text \<open>
  The theorem on a node whose only CPU already carries the utilisation 0.5 of container
  \<open>c1\<close>, under a ceiling of 1: a second container \<open>c2\<close> asking for 0.5 on one CPU
  finds no CPU that fits and is refused; adding \<open>c1\<close> again succeeds.
\<close>

theorem AddContainer_DoesNotFit_witness:
  "enumerates [(0, Fin (1/2))] (CpuToUtilMap afterFirstAdd)
   \<and> fgt (requestedUtil halfCpu) (Fin 0)
   \<and> GetRtCPUSetAndUtilOfContainer afterFirstAdd ''c2'' = None
   \<and> int (length (fitting (allocableRtUtil policy1) (requestedUtil halfCpu) [(0, Fin (1/2))]))
        < sint (CpuRt halfCpu)
   \<and> AddContainer policy1 [(0, Fin (1/2))] afterFirstAdd halfCpu ''c2''
        = (Some (DoesNotFit ''c2''), afterFirstAdd)
   \<and> GetRtCPUSetAndUtilOfContainer afterFirstAdd ''c1'' \<noteq> None
   \<and> AddContainer policy1 [(0, Fin (1/2))] afterFirstAdd halfCpu ''c1'' = (None, afterFirstAdd)"
proof -
  have 2: "fgt (requestedUtil halfCpu) (Fin 0)"
    by (simp add: requestedUtil_halfCpu fgt_def)
  have 3: "GetRtCPUSetAndUtilOfContainer afterFirstAdd ''c2'' = None"
    by (simp add: afterFirstAdd_eq GetRtCPUSetAndUtilOfContainer_def GetCPUSet_def)
  have 4: "GetRtCPUSetAndUtilOfContainer afterFirstAdd ''c1'' \<noteq> None"
    by (simp add: afterFirstAdd_eq GetRtCPUSetAndUtilOfContainer_def GetCPUSet_def)
  from AddContainer_DoesNotFit_unchanged[OF enumerates_afterFirstAdd 2,
           where containerID = "''c2''" and p = policy1]
       AddContainer_DoesNotFit_unchanged[OF enumerates_afterFirstAdd 2,
           where containerID = "''c1''" and p = policy1]
       enumerates_afterFirstAdd 2 3 4 nothing_fits_afterFirstAdd
  show ?thesis by blast
qed

text \<open>
  The claim as stated fails. Under a ceiling of 0.95, container \<open>a\<close> with runtime 94 in
  a period of 100 is admitted onto the only CPU, which then carries 0.94. Container
  \<open>b\<close> asks for runtime 1 in a period of 100 on one CPU: \<open>0.94 + 0.01\<close> rounds to the
  ceiling, so no CPU satisfies \<open>util + u < allocableRtUtil\<close> and the claim promises the
  doesn't-fit error; but the program tests \<open>allocableRtUtil - util - u > 0\<close>, which
  holds with \<open>5 * 2^-59\<close>, admits \<open>b\<close> and changes the state.
\<close>

theorem AddContainer_admits_counterexample:
  "enumerates [(0, Fin d94)] (CpuToUtilMap afterA)
   \<and> fgt (requestedUtil containerB) (Fin 0)
   \<and> GetRtCPUSetAndUtilOfContainer afterA ''b'' = None
   \<and> int (length (specCandidates (allocableRtUtil policy95) (requestedUtil containerB)
                    [(0, Fin d94)])) < sint (CpuRt containerB)
   \<and> fst (AddContainer policy95 [(0, Fin d94)] afterA containerB ''b'') = None
   \<and> GetCPUSet (snd (AddContainer policy95 [(0, Fin d94)] afterA containerB ''b'')) ''b''
        = Some {0}
   \<and> CpuToUtilMap (snd (AddContainer policy95 [(0, Fin d94)] afterA containerB ''b'')) 0
        = Some (Fin d95)"
proof -
  have 2: "fgt (requestedUtil containerB) (Fin 0)"
    by (simp add: requestedUtil_containerB fgt_def)
  have 3: "GetRtCPUSetAndUtilOfContainer afterA ''b'' = None"
    by (simp add: afterA_eq GetRtCPUSetAndUtilOfContainer_def GetCPUSet_def)
  have 4: "int (length (specCandidates (allocableRtUtil policy95) (requestedUtil containerB)
                    [(0, Fin d94)])) < sint (CpuRt containerB)"
    by (simp add: requestedUtil_def rtRequests_def specCandidates_def policy95_def
        containerB_def)
  have 5: "AddContainer policy95 [(0, Fin d94)] afterA containerB ''b''
      = (None, \<lparr>assignments = [''a'' \<mapsto> {0}, ''b'' \<mapsto> {0}], defaultCPUSet = {0},
           containerToUtil = [''a'' \<mapsto> Fin d94, ''b'' \<mapsto> Fin d01],
           cpuToUtil = [0 \<mapsto> Fin d95]\<rparr>)"
    by (auto simp: afterA_eq AddContainer_def rtRequests_def requestedUtil_def
      containerB_def GetRtCPUSetAndUtilOfContainer_def GetCPUSet_def
      worstFit_def policy95_def SliceStable_def Let_def fsub_def fgt_def
      SetRtCPUSetAndUtilOfContainer_def commitRt_def SetCPUSet_def addToCpus_def utilAt_def
      fun_eq_iff)
  from enumerates_afterA 2 3 4 show ?thesis
    by (simp add: 5 GetCPUSet_def CpuToUtilMap_def)
qed

text \<open>
  C6, as amended. For every \<open>RtState\<close> and every container id without a CPU-set
  assignment, \<open>RtState.Delete\<close> panics (\<open>manage this error\<close>) before it changes any
  map; it is the policy's \<open>RemoveContainer\<close> that is a no-op for such an id: it returns
  success and the state it was given.
\<close>

theorem Delete_unknown_panics:
  assumes "GetCPUSet s containerID = None"
  shows "Delete s containerID = Inl (Panic ''manage this error'')
       \<and> RemoveContainer s containerID = (None, s)"
  using assms by (simp add: Delete_def RemoveContainer_def GetRtCPUSetAndUtilOfContainer_def)

text \<open>The theorem at the unknown id \<open>c2\<close> on a node that holds container \<open>c1\<close>.\<close>

theorem Delete_unknown_witness:
  "GetCPUSet afterFirstAdd ''c2'' = None
   \<and> Delete afterFirstAdd ''c2'' = Inl (Panic ''manage this error'')
   \<and> RemoveContainer afterFirstAdd ''c2'' = (None, afterFirstAdd)"
proof -
  have 1: "GetCPUSet afterFirstAdd ''c2'' = None"
    by (simp add: afterFirstAdd_eq GetCPUSet_def)
  from Delete_unknown_panics[OF 1] 1 show ?thesis by blast
qed

text \<open>
  The claim as stated fails: on a freshly initialised state, deleting an id that was
  never assigned does not return the unchanged state, it panics.
\<close>

theorem Delete_unknown_counterexample:
  "GetCPUSet (NewRtState emptyNode) ''ghost'' = None
   \<and> Delete (NewRtState emptyNode) ''ghost'' \<noteq> Inr (NewRtState emptyNode)
   \<and> Delete (NewRtState emptyNode) ''ghost'' = Inl (Panic ''manage this error'')"
  by (simp add: Delete_def GetCPUSet_def NewRtState_def emptyNode_def)

section \<open>Balanced resource scoring\<close>





lemma rnd_abs_le:
  assumes "\<bar>x\<bar> \<le> b" "1 \<le> b"
  shows "\<bar>rnd x\<bar> \<le> 2 * b"
proof -
  have "\<bar>rnd x - x\<bar> \<le> (\<bar>x\<bar> + 1) / 2 ^ 53" by (rule rnd_err_rel)
  also have "\<dots> \<le> (b + b) / 2 ^ 53" using assms by (intro divide_right_mono) simp_all
  also have "\<dots> \<le> b" using assms by simp
  finally show ?thesis using assms by linarith
qed

lemma rnd_int_nonzero:
  assumes "n \<noteq> 0"
  shows "1/2 \<le> \<bar>rnd (of_int n)\<bar>"
proof -
  have n1: "1 \<le> \<bar>real_of_int n\<bar>" using assms by (simp flip: of_int_abs)
  have "\<bar>rnd (of_int n) - of_int n\<bar> \<le> (\<bar>real_of_int n\<bar> + 1) / 2 ^ 53" by (rule rnd_err_rel)
  also have "\<dots> \<le> (\<bar>real_of_int n\<bar> + \<bar>real_of_int n\<bar>) / 2 ^ 53"
    using n1 by (intro divide_right_mono) simp_all
  also have "\<dots> \<le> \<bar>real_of_int n\<bar> / 2" by simp
  finally show ?thesis using n1 by linarith
qed

lemma representable_roundF: "representable (Fin x) \<Longrightarrow> roundF x = Fin x"
  by (simp add: representable_def roundF_Fin)

lemma representable_quotient:
  assumes "w \<noteq> 0"
  shows "representable (fdiv (ofInt64 v) (ofInt64 w))"
proof -
  define x where "x = rnd (of_int (sint v))"
  define y where "y = rnd (of_int (sint w))"
  have sw: "sint w \<noteq> 0" using assms by (simp add: signed_eq_0_iff)
  have y: "1/2 \<le> \<bar>y\<bar>" unfolding y_def using sw by (rule rnd_int_nonzero)
  then have y0: "y \<noteq> 0" by auto
  have x: "\<bar>x\<bar> \<le> 2 * 2 ^ 63" unfolding x_def by (rule rnd_abs_le[OF sint_real_bound]) simp
  have "\<bar>x / y\<bar> = \<bar>x\<bar> / \<bar>y\<bar>" by simp
  also have "\<dots> \<le> (2 * 2 ^ 63) / (1/2)"
    using x y by (intro frac_le) simp_all
  finally have q: "\<bar>x / y\<bar> \<le> 2 ^ 65" by simp
  also have "\<dots> \<le> (2::real) ^ 1000" by simp
  finally have "roundF (x / y) = Fin (rnd (x / y))" by (rule roundF_Fin)
  then have f: "fdiv (ofInt64 v) (ofInt64 w) = Fin (rnd (x / y))"
    using y0 by (simp add: ofInt64_Fin x_def y_def)
  have "\<bar>rnd (x / y)\<bar> \<le> 2 * 2 ^ 65" by (rule rnd_abs_le[OF q]) simp
  also have "\<dots> \<le> (2::real) ^ 1000" by simp
  finally show ?thesis by (simp add: f representable_def)
qed

lemma representable_fractionOfCapacity: "representable (fractionOfCapacity v c)"
  using representable_quotient[of c v]
  by (simp add: fractionOfCapacity_def) (simp add: representable_def)

lemma variance_single:
  assumes "representable (Fin x)"
  shows "variance [Fin x] = Fin 0"
  using representable_roundF[OF assms]
  by (simp add: variance_def Let_def ofLen_def fsub_def)






text \<open>
  C10. For every input with exactly one requested resource whose fraction is below 1,
  and no volume fraction included, the scorer returns exactly \<open>MaxNodeScore = 100\<close>: the
  variance of a single value is zero.
\<close>

theorem scorer_single_fraction:
  assumes "flt (fractionOfCapacity v (valueAt allocable r)) (Fin 1)"
    and "\<not> (includeVolumes \<and> gate \<and> 0 < sint allocatableVolumes)"
  shows "balancedResourceScorer gate [(r, v)] allocable includeVolumes
           requestedVolumes allocatableVolumes = Some 100"
proof -
  define f where "f = fractionOfCapacity v (valueAt allocable r)"
  have rep: "representable f" unfolding f_def by (rule representable_fractionOfCapacity)
  then obtain x where x: "f = Fin x" by (cases f) (simp_all add: representable_def)
  have var: "variance [f] = Fin 0" using rep unfolding x by (rule variance_single)
  have "\<not> fge f (Fin 1)" using assms(1) unfolding f_def by (rule flt_not_fge)
  then have "balancedResourceScorer gate [(r, v)] allocable includeVolumes
           requestedVolumes allocatableVolumes
      = toInt64 (fmul (fsub (Fin 1) (variance [f])) (ofInt64 MaxNodeScore))"
    using assms(2) by (auto simp: balancedResourceScorer_def Let_def f_def[symmetric])
  then show ?thesis
    by (simp add: var MaxNodeScore_def fsub_def truncateToZero_def Let_def)
qed

text \<open>The theorem at the single resource cpu, 1 requested of 16.\<close>

theorem scorer_single_fraction_witness:
  "flt (fractionOfCapacity 1 (valueAt node16 ''cpu'')) (Fin 1)
   \<and> \<not> (False \<and> False \<and> 0 < sint (0 :: int64))
   \<and> balancedResourceScorer False cpuOne node16 False 0 0 = Some 100"
proof -
  have 1: "flt (fractionOfCapacity 1 (valueAt node16 ''cpu'')) (Fin 1)"
    using roundF_dyadic[of 1 4] by (simp add: fractionOfCapacity_def valueAt_def node16_def)
  have 2: "\<not> (False \<and> False \<and> 0 < sint (0 :: int64))" by simp
  from scorer_single_fraction[OF 1 2, of 0] 1 show ?thesis
    by (simp add: cpuOne_def)
qed

text \<open>
  C4 fails on the code. With volume balancing enabled, cpu and memory idle, three
  requested volumes and one allocatable volume, the fractions are 0, 0 and 3, their
  variance is 2, and the scorer returns -100, outside the interval from 0 to 100. The loop
  over the resources returns 0 as soon as a fraction reaches 1; the volume fraction is
  appended without that check. Every intermediate value is a small integer, which
  \<open>float64\<close> arithmetic computes exactly.
\<close>

theorem scorer_volume_out_of_bounds:
  "balancedResourceScorer True cpuAndMemoryIdle node16 True 3 1 = Some (- 100)"
  by (simp add: balancedResourceScorer_def Let_def variance_def truncateToZero_def
      MaxNodeScore_def fractionOfCapacity_def valueAt_def cpuAndMemoryIdle_def node16_def
      ofLen_def fsub_def fge_def)

text \<open>
  Rounding before the conversion shows as well: for requested cpu 8 of 10 and memory 0
  of 10 the real-valued score is exactly 20, but \<open>1 - 0.8\<close> is the \<open>float64\<close>
  \<open>0.19999999999999996\<close>, its product with 100 rounds to \<open>19.999999999999996\<close>, and
  the scorer returns 19.
\<close>

lemma roundF_4_5: "roundF (4 / 5) = Fin d80"
  by (rule roundF_val[where e = "-1" and m = 7205759403792794])
     (simp_all add: rne_def Let_def d80_def)

lemma roundF_d80: "roundF d80 = Fin d80"
  using roundF_dyadic[of 7205759403792794 53] by (simp add: d80_def)

lemma roundF_1_d80: "roundF (1 - d80) = Fin d20"
  using roundF_dyadic[of 1801439850948198 53] by (simp add: d80_def d20_def)

lemma roundF_d20_100: "roundF (d20 * 100) = Fin d1999"
  by (rule roundF_val[where e = 4 and m = 5629499534213119])
     (simp_all add: rne_def Let_def d20_def d1999_def)

lemma d80_bounds: "0 \<le> d80" "\<not> 1 < d80" "d80 \<noteq> 1"
  by (simp_all add: d80_def)

lemma truncateToZero_d1999: "truncateToZero d1999 = 19"
proof -
  have "\<lfloor>d1999\<rfloor> = 19" by (simp add: d1999_def floor_eq_iff)
  moreover have "0 \<le> d1999" by (simp add: d1999_def)
  ultimately show ?thesis by (simp add: truncateToZero_def)
qed

lemma scorer_cpuEightMemoryIdle:
  "balancedResourceScorer False cpuEightMemoryIdle node10 False 0 0 = Some 19"
  by (simp add: balancedResourceScorer_def Let_def MaxNodeScore_def fractionOfCapacity_def
      valueAt_def cpuEightMemoryIdle_def node10_def fsub_def fge_def
      roundF_4_5 roundF_d80 roundF_1_d80 roundF_d20_100 d80_bounds truncateToZero_d1999)

section \<open>The balance invariant of RtState\<close>

lemma finite_containersOn: "finite (dom (containerToUtil s)) \<Longrightarrow> finite (containersOn s i)"
  by (rule finite_subset[of _ "dom (containerToUtil s)"]) (auto simp: containersOn_def)

lemma expectedUtil_split:
  assumes "finite (dom (containerToUtil s))"
  shows "expectedUtil s i =
           (if c \<in> containersOn s i then realOf (the (containerToUtil s c)) else 0)
           + restUtil s c i"
  using finite_containersOn[OF assms, of i]
  by (auto simp: expectedUtil_def restUtil_def sum.remove)

lemma utilAt_addToCpus [simp]:
  "utilAt (addToCpus cset u m) i = (if i \<in> cset then fadd (utilAt m i) u else utilAt m i)"
  by (simp add: utilAt_def addToCpus_def)

lemma utilAt_subFromCpus [simp]:
  "utilAt (subFromCpus cset u m) i = (if i \<in> cset then fsub (utilAt m i) u else utilAt m i)"
  by (simp add: utilAt_def subFromCpus_def)

lemma utilAt_subClampFromCpus [simp]:
  "utilAt (subClampFromCpus cset u m) i =
     (if i \<in> cset
      then (if flt (fsub (utilAt m i) u) (Fin 0) then Fin 0 else fsub (utilAt m i) u)
      else utilAt m i)"
  by (simp add: utilAt_def subClampFromCpus_def Let_def)

lemma restUtil_nonneg:
  assumes "\<forall>c u. containerToUtil s c = Some u \<longrightarrow> inUnitInterval u"
  shows "0 \<le> restUtil s c i"
  unfolding restUtil_def
  by (rule sum_nonneg) (use assms in \<open>auto simp: containersOn_def inUnitInterval_def\<close>)

lemma restUtil_le_card:
  assumes "finite (dom (containerToUtil s))"
    and "\<forall>c u. containerToUtil s c = Some u \<longrightarrow> inUnitInterval u"
  shows "restUtil s c i \<le> real (card (dom (containerToUtil s) - {c}))"
proof -
  have fin: "finite (containersOn s i - {c})"
    using finite_containersOn[OF assms(1), of i] by simp
  have "restUtil s c i \<le> of_nat (card (containersOn s i - {c})) * 1"
    unfolding restUtil_def
    by (rule sum_bounded_above)
       (use assms(2) in \<open>force simp: containersOn_def inUnitInterval_def intro: less_imp_le\<close>)
  also have "card (containersOn s i - {c}) \<le> card (dom (containerToUtil s) - {c})"
    by (rule card_mono) (use assms(1) in \<open>auto simp: containersOn_def\<close>)
  finally show ?thesis by simp
qed

lemma restUtil_cong:
  assumes "\<And>d. d \<noteq> c \<Longrightarrow> containerToUtil s' d = containerToUtil s d"
    and "\<And>d. d \<noteq> c \<Longrightarrow> assignments s' d = assignments s d"
  shows "restUtil s' c i = restUtil s c i"
proof -
  have "containersOn s' i - {c} = containersOn s i - {c}"
    using assms by (auto simp: containersOn_def dom_def)
  then show ?thesis
    unfolding restUtil_def using assms(1) by (auto intro!: sum.cong)
qed

subsection \<open>One rounded step\<close>

lemma driftBound_Suc: "driftBound (Suc j) = driftBound j + 2 * ((real j + 4) / 2 ^ 53)"
  by (simp add: driftBound_def field_simps)

lemma driftBound_mono:
  assumes "j \<le> k"
  shows "driftBound j \<le> driftBound k"
proof -
  have "j * (j + 7) \<le> k * (k + 7)" using assms by (intro mult_le_mono) simp_all
  then have "real (j * (j + 7)) \<le> real (k * (k + 7))" by (simp only: of_nat_le_iff)
  then show ?thesis unfolding driftBound_def by (intro divide_right_mono) simp_all
qed

lemma driftBound_2900: "driftBound 2900 < 1 / 10 ^ 9"
  by (simp add: driftBound_def)

lemma driftBound_small: "j \<le> 2900 \<Longrightarrow> driftBound j < 1 / 10 ^ 9"
  using driftBound_mono[of j 2900] driftBound_2900 by linarith

lemma driftBound_nonneg: "0 \<le> driftBound j"
  by (simp add: driftBound_def)

lemma closeTo_mono: "closeTo b v t \<Longrightarrow> b \<le> b' \<Longrightarrow> closeTo b' v t"
  by (auto simp: closeTo_def)

lemma closeTo_fadd:
  assumes "closeTo b v t" "b \<le> 2" "\<bar>t + y\<bar> \<le> real j + 1" "j \<le> 2900"
  shows "closeTo (b + (real j + 4) / 2 ^ 53) (fadd v (Fin y)) (t + y)"
proof -
  from assms(1) obtain x where v: "v = Fin x" and x: "\<bar>x - t\<bar> \<le> b"
    by (cases v) (auto simp: closeTo_def)
  have xy: "\<bar>x + y\<bar> \<le> real j + 3" using x assms(2,3) by linarith
  have "real j \<le> 2900" using assms(4) by simp
  then have "real j + 3 \<le> 2 ^ 1000" by simp
  with xy have "\<bar>x + y\<bar> \<le> 2 ^ 1000" by linarith
  then have r: "fadd v (Fin y) = Fin (rnd (x + y))" by (simp add: v roundF_Fin)
  have "\<bar>rnd (x + y) - (x + y)\<bar> \<le> (\<bar>x + y\<bar> + 1) / 2 ^ 53" by (rule rnd_err_rel)
  also have "\<dots> \<le> (real j + 4) / 2 ^ 53" using xy by (intro divide_right_mono) simp_all
  finally have "\<bar>rnd (x + y) - (t + y)\<bar> \<le> b + (real j + 4) / 2 ^ 53" using x by linarith
  then show ?thesis by (simp add: r closeTo_def)
qed

lemma closeTo_fsub:
  assumes "closeTo b v t" "b \<le> 2" "\<bar>t - y\<bar> \<le> real j + 1" "j \<le> 2900"
  shows "closeTo (b + (real j + 4) / 2 ^ 53) (fsub v (Fin y)) (t - y)"
  using closeTo_fadd[of b v t "- y" j] assms by (simp add: fsub_def)

lemma closeTo_clamp:
  assumes "closeTo b v t" "0 \<le> t"
  shows "closeTo b (if flt v (Fin 0) then Fin 0 else v) t"
  using assms by (cases v) (auto simp: closeTo_def)

lemma inUnitInterval_Fin: "inUnitInterval u \<Longrightarrow> u = Fin (realOf u)"
  by (cases u) (simp_all add: inUnitInterval_def)

subsection \<open>Preservation\<close>

lemma Set_within:
  assumes inv: "balancedWithin j s" and j: "j \<le> 2900" and unit: "inUnitInterval util"
    and run: "SetRtCPUSetAndUtilOfContainer s c cset util = Inr s'"
  shows "balancedWithin (Suc j) s'"
proof -
  define B where "B = driftBound j"
  define e where "e = (real j + 4) / 2 ^ 53"
  have D: "driftBound (Suc j) = B + 2 * e" by (simp add: driftBound_Suc B_def e_def)
  have B1: "0 \<le> B" "B \<le> 1"
    using driftBound_nonneg[of j] driftBound_small[OF j] by (simp_all add: B_def)
  have e1: "0 \<le> e" "e \<le> 1" using j by (simp_all add: e_def)
  have fin: "finite (dom (containerToUtil s))" using inv by (simp add: balancedWithin_def)
  have card: "card (dom (containerToUtil s)) \<le> j" using inv by (simp add: balancedWithin_def)
  have units: "\<forall>d u. containerToUtil s d = Some u \<longrightarrow> inUnitInterval u"
    using inv by (simp add: balancedWithin_def)
  have close: "closeTo B (utilAt (cpuToUtil s) i) (expectedUtil s i)" for i
    using inv by (simp add: balancedWithin_def B_def)
  have u: "util = Fin (realOf util)" "0 \<le> realOf util" "realOf util < 1"
    using unit inUnitInterval_Fin[OF unit] by (simp_all add: inUnitInterval_def)
  have ctu': "containerToUtil s' = (containerToUtil s)(c \<mapsto> util)"
    and asg': "assignments s' = (assignments s)(c \<mapsto> cset)"
    using run
    by (auto simp: SetRtCPUSetAndUtilOfContainer_def commitRt_def SetCPUSet_def Let_def
             split: option.splits)
  have fin': "finite (dom (containerToUtil s'))" using fin by (simp add: ctu')
  have card': "card (dom (containerToUtil s')) \<le> Suc j"
    using fin card by (simp add: ctu' card_insert_if)
  have units': "\<forall>d u. containerToUtil s' d = Some u \<longrightarrow> inUnitInterval u"
    using units unit by (auto simp: ctu')
  have rest: "restUtil s' c i = restUtil s c i" for i
    by (rule restUtil_cong) (simp_all add: ctu' asg')
  have mem': "c \<in> containersOn s' i \<longleftrightarrow> i \<in> cset" for i
    by (simp add: containersOn_def ctu' asg')
  have exp': "expectedUtil s' i = (if i \<in> cset then realOf util else 0) + restUtil s c i" for i
    using expectedUtil_split[OF fin', of i c] by (simp add: mem' rest ctu')
  have R0: "0 \<le> restUtil s c i" for i by (rule restUtil_nonneg[OF units])
  have Rj: "restUtil s c i \<le> real j" for i
  proof -
    have "restUtil s c i \<le> real (card (dom (containerToUtil s) - {c}))"
      by (rule restUtil_le_card[OF fin units])
    also have "card (dom (containerToUtil s) - {c}) \<le> card (dom (containerToUtil s))"
      by (rule card_mono) (use fin in auto)
    finally show ?thesis using card by linarith
  qed
  have add: "closeTo (b + e) (fadd v util) (restUtil s c i + realOf util)"
    if "closeTo b v (restUtil s c i)" "b \<le> 2" for b v i
  proof -
    have "\<bar>restUtil s c i + realOf util\<bar> \<le> real j + 1"
      using R0[of i] Rj[of i] u(2,3) by linarith
    from closeTo_fadd[OF that this j] show ?thesis unfolding e_def using u(1) by simp
  qed
  have cu': "closeTo (B + 2 * e) (utilAt (cpuToUtil s') i) (expectedUtil s' i)" for i
  proof (cases "containerToUtil s c")
    case None
    then have "c \<notin> containersOn s i" by (auto simp: containersOn_def)
    then have E: "expectedUtil s i = restUtil s c i"
      using expectedUtil_split[OF fin, of i c] by simp
    have c0: "closeTo B (utilAt (cpuToUtil s) i) (restUtil s c i)"
      using close[of i] by (simp add: E)
    have m: "cpuToUtil s' = addToCpus cset util (cpuToUtil s)"
      using run None
      by (auto simp: SetRtCPUSetAndUtilOfContainer_def commitRt_def SetCPUSet_def Let_def)
    show ?thesis
    proof (cases "i \<in> cset")
      case True
      have "closeTo (B + e) (fadd (utilAt (cpuToUtil s) i) util) (restUtil s c i + realOf util)"
        by (rule add[OF c0]) (use B1 in simp)
      then have "closeTo (B + 2 * e) (fadd (utilAt (cpuToUtil s) i) util)
                   (restUtil s c i + realOf util)"
        by (rule closeTo_mono) (use e1 in simp)
      then show ?thesis using True by (simp add: m exp' add.commute)
    next
      case False
      have "closeTo (B + 2 * e) (utilAt (cpuToUtil s) i) (restUtil s c i)"
        using c0 by (rule closeTo_mono) (use e1 in simp)
      then show ?thesis using False by (simp add: m exp')
    qed
  next
    case (Some oldUtil)
    with run obtain oldSet where old: "assignments s c = Some oldSet"
      by (auto simp: SetRtCPUSetAndUtilOfContainer_def GetCPUSet_def split: option.splits)
    have ou: "oldUtil = Fin (realOf oldUtil)" "0 \<le> realOf oldUtil" "realOf oldUtil < 1"
      using units Some inUnitInterval_Fin[of oldUtil] by (auto simp: inUnitInterval_def)
    have "c \<in> containersOn s i \<longleftrightarrow> i \<in> oldSet"
      using Some old by (auto simp: containersOn_def)
    then have E: "expectedUtil s i = (if i \<in> oldSet then realOf oldUtil else 0) + restUtil s c i"
      using expectedUtil_split[OF fin, of i c] Some by simp
    have m: "cpuToUtil s' = addToCpus cset util (subFromCpus oldSet oldUtil (cpuToUtil s))"
      using run Some old
      by (auto simp: SetRtCPUSetAndUtilOfContainer_def commitRt_def SetCPUSet_def GetCPUSet_def
          Let_def)
    define v1 where "v1 = utilAt (subFromCpus oldSet oldUtil (cpuToUtil s)) i"
    have c1: "closeTo (B + e) v1 (restUtil s c i)"
    proof (cases "i \<in> oldSet")
      case True
      have c0: "closeTo B (utilAt (cpuToUtil s) i) (realOf oldUtil + restUtil s c i)"
        using close[of i] True by (simp add: E)
      have "\<bar>realOf oldUtil + restUtil s c i - realOf oldUtil\<bar> \<le> real j + 1"
        using R0[of i] Rj[of i] by simp
      from closeTo_fsub[OF c0 _ this j] B1
      have "closeTo (B + e) (fsub (utilAt (cpuToUtil s) i) (Fin (realOf oldUtil)))
              (restUtil s c i)"
        by (simp add: e_def)
      then show ?thesis using True ou(1) by (simp add: v1_def)
    next
      case False
      have "closeTo B (utilAt (cpuToUtil s) i) (restUtil s c i)"
        using close[of i] False by (simp add: E)
      then have "closeTo (B + e) (utilAt (cpuToUtil s) i) (restUtil s c i)"
        by (rule closeTo_mono) (use e1 in simp)
      then show ?thesis using False by (simp add: v1_def)
    qed
    show ?thesis
    proof (cases "i \<in> cset")
      case True
      have "closeTo (B + e + e) (fadd v1 util) (restUtil s c i + realOf util)"
        by (rule add[OF c1]) (use B1 e1 in simp)
      then show ?thesis using True by (simp add: m exp' v1_def add.commute)
    next
      case False
      have "closeTo (B + 2 * e) v1 (restUtil s c i)"
        using c1 by (rule closeTo_mono) (use e1 in simp)
      then show ?thesis using False by (simp add: m exp' v1_def)
    qed
  qed
  show ?thesis unfolding balancedWithin_def D using fin' card' units' cu' by simp
qed

lemma Delete_within:
  assumes inv: "balancedWithin j s" and j: "j \<le> 2900" and run: "Delete s c = Inr s'"
  shows "balancedWithin (Suc j) s'"
proof -
  define B where "B = driftBound j"
  define e where "e = (real j + 4) / 2 ^ 53"
  have D: "driftBound (Suc j) = B + 2 * e" by (simp add: driftBound_Suc B_def e_def)
  have B1: "0 \<le> B" "B \<le> 1"
    using driftBound_nonneg[of j] driftBound_small[OF j] by (simp_all add: B_def)
  have e1: "0 \<le> e" "e \<le> 1" using j by (simp_all add: e_def)
  have fin: "finite (dom (containerToUtil s))" using inv by (simp add: balancedWithin_def)
  have card: "card (dom (containerToUtil s)) \<le> j" using inv by (simp add: balancedWithin_def)
  have units: "\<forall>d u. containerToUtil s d = Some u \<longrightarrow> inUnitInterval u"
    using inv by (simp add: balancedWithin_def)
  have close: "closeTo B (utilAt (cpuToUtil s) i) (expectedUtil s i)" for i
    using inv by (simp add: balancedWithin_def B_def)
  from run obtain cpuSet where asg: "assignments s c = Some cpuSet"
    by (auto simp: Delete_def GetCPUSet_def split: option.splits)
  have asg': "assignments s' = (assignments s)(c := None)"
    and ctu': "containerToUtil s' = (containerToUtil s)(c := None)"
    using run asg
    by (auto simp: Delete_def GetCPUSet_def GetRtCPUSetAndUtilOfContainer_def State_Delete_def
             split: option.splits)
  have fin': "finite (dom (containerToUtil s'))" using fin by (simp add: ctu')
  have "card (dom (containerToUtil s')) \<le> card (dom (containerToUtil s))"
    by (rule card_mono) (use fin in \<open>auto simp: ctu'\<close>)
  then have card': "card (dom (containerToUtil s')) \<le> Suc j" using card by simp
  have units': "\<forall>d u. containerToUtil s' d = Some u \<longrightarrow> inUnitInterval u"
    using units by (auto simp: ctu')
  have rest: "restUtil s' c i = restUtil s c i" for i
    by (rule restUtil_cong) (simp_all add: ctu' asg')
  have "c \<notin> containersOn s' i" for i by (simp add: containersOn_def ctu')
  then have exp': "expectedUtil s' i = restUtil s c i" for i
    using expectedUtil_split[OF fin', of i c] by (simp add: rest)
  have R0: "0 \<le> restUtil s c i" for i by (rule restUtil_nonneg[OF units])
  have Rj: "restUtil s c i \<le> real j" for i
  proof -
    have "restUtil s c i \<le> real (card (dom (containerToUtil s) - {c}))"
      by (rule restUtil_le_card[OF fin units])
    also have "card (dom (containerToUtil s) - {c}) \<le> card (dom (containerToUtil s))"
      by (rule card_mono) (use fin in auto)
    finally show ?thesis using card by linarith
  qed
  have cu': "closeTo (B + 2 * e) (utilAt (cpuToUtil s') i) (expectedUtil s' i)" for i
  proof (cases "containerToUtil s c")
    case None
    then have "c \<notin> containersOn s i" by (auto simp: containersOn_def)
    then have "closeTo B (utilAt (cpuToUtil s) i) (restUtil s c i)"
      using close[of i] expectedUtil_split[OF fin, of i c] by simp
    then have "closeTo (B + 2 * e) (utilAt (cpuToUtil s) i) (restUtil s c i)"
      by (rule closeTo_mono) (use e1 in simp)
    moreover have "cpuToUtil s' = cpuToUtil s"
      using run asg None
      by (auto simp: Delete_def GetCPUSet_def GetRtCPUSetAndUtilOfContainer_def State_Delete_def)
    ultimately show ?thesis by (simp add: exp')
  next
    case (Some oldUtil)
    have ou: "oldUtil = Fin (realOf oldUtil)" "0 \<le> realOf oldUtil" "realOf oldUtil < 1"
      using units Some inUnitInterval_Fin[of oldUtil] by (auto simp: inUnitInterval_def)
    have "c \<in> containersOn s i \<longleftrightarrow> i \<in> cpuSet"
      using Some asg by (auto simp: containersOn_def)
    then have E: "expectedUtil s i = (if i \<in> cpuSet then realOf oldUtil else 0) + restUtil s c i"
      using expectedUtil_split[OF fin, of i c] Some by simp
    have m: "cpuToUtil s' = subClampFromCpus cpuSet oldUtil (cpuToUtil s)"
      using run asg Some
      by (auto simp: Delete_def GetCPUSet_def GetRtCPUSetAndUtilOfContainer_def State_Delete_def)
    show ?thesis
    proof (cases "i \<in> cpuSet")
      case True
      have c0: "closeTo B (utilAt (cpuToUtil s) i) (realOf oldUtil + restUtil s c i)"
        using close[of i] True by (simp add: E)
      have "\<bar>realOf oldUtil + restUtil s c i - realOf oldUtil\<bar> \<le> real j + 1"
        using R0[of i] Rj[of i] by simp
      from closeTo_fsub[OF c0 _ this j] B1
      have "closeTo (B + e) (fsub (utilAt (cpuToUtil s) i) (Fin (realOf oldUtil)))
              (restUtil s c i)"
        by (simp add: e_def)
      then have "closeTo (B + e) (fsub (utilAt (cpuToUtil s) i) oldUtil) (restUtil s c i)"
        using ou(1) by simp
      then have "closeTo (B + e)
          (if flt (fsub (utilAt (cpuToUtil s) i) oldUtil) (Fin 0) then Fin 0
           else fsub (utilAt (cpuToUtil s) i) oldUtil) (restUtil s c i)"
        using R0[of i] by (rule closeTo_clamp)
      then have "closeTo (B + 2 * e)
          (if flt (fsub (utilAt (cpuToUtil s) i) oldUtil) (Fin 0) then Fin 0
           else fsub (utilAt (cpuToUtil s) i) oldUtil) (restUtil s c i)"
        by (rule closeTo_mono) (use e1 in simp)
      then show ?thesis using True by (simp add: m exp')
    next
      case False
      have "closeTo B (utilAt (cpuToUtil s) i) (restUtil s c i)"
        using close[of i] False by (simp add: E)
      then have "closeTo (B + 2 * e) (utilAt (cpuToUtil s) i) (restUtil s c i)"
        by (rule closeTo_mono) (use e1 in simp)
      then show ?thesis using False by (simp add: m exp')
    qed
  qed
  show ?thesis unfolding balancedWithin_def D using fin' card' units' cu' by simp
qed

lemma NewRtState_within: "balancedWithin 0 (NewRtState st)"
  by (simp add: balancedWithin_def closeTo_def driftBound_def NewRtState_def expectedUtil_def
      containersOn_def utilAt_def)

lemma runOps_within:
  assumes "balancedWithin j s" "list_all utilInUnitInterval ops" "runOps s ops = Inr s'"
    and "j + length ops \<le> 2900"
  shows "balancedWithin (j + length ops) s'"
  using assms
proof (induction ops arbitrary: s j)
  case Nil
  then show ?case by simp
next
  case (Cons x xs)
  from Cons.prems(3) obtain s1 where s1: "applyOp s x = Inr s1" "runOps s1 xs = Inr s'"
    by (auto split: sum.splits)
  have j: "j \<le> 2900" using Cons.prems(4) by simp
  have "balancedWithin (Suc j) s1"
  proof (cases x)
    case (OpSet c cset u)
    with Cons.prems(1,2) s1(1) j show ?thesis by (auto intro: Set_within)
  next
    case (OpDelete c)
    with Cons.prems(1) s1(1) j show ?thesis by (auto intro: Delete_within)
  qed
  with Cons.IH[of "Suc j" s1] Cons.prems(2,4) s1(2) show ?case by simp
qed

lemma runOps_steadyOps: "runOps (NewRtState emptyNode) steadyOps = Inr afterSteady"
  by (auto simp: steadyOps_def afterSteady_def NewRtState_def emptyNode_def
      SetRtCPUSetAndUtilOfContainer_def commitRt_def SetCPUSet_def GetCPUSet_def Let_def
      Delete_def GetRtCPUSetAndUtilOfContainer_def State_Delete_def
      addToCpus_def subFromCpus_def subClampFromCpus_def utilAt_def fsub_def fun_eq_iff)

text \<open>
  C3, as amended. Start from \<open>NewRtState\<close> of any underlying state and run a sequence of
  at most 2900 \<open>set\<close> and \<open>delete\<close> operations that does not panic and in which every
  utilisation passed to \<open>set\<close> is a \<open>float64\<close> from 0 up to, not including, 1. Then
  for every CPU \<open>i\<close> the stored \<open>cpuUtil[i]\<close> is finite and differs from the sum of
  the utilisations of the containers whose current assignment contains \<open>i\<close> (a sum of
  real numbers) by at most \<open>n (n + 7) / 2^53\<close>, \<open>n\<close> the number of operations, which
  is less than \<open>1e-9\<close>.
\<close>

theorem RtState_balance_bounded:
  assumes "list_all utilInUnitInterval ops"
    and "runOps (NewRtState st) ops = Inr s"
    and "length ops \<le> 2900"
  shows "isFin (utilAt (CpuToUtilMap s) i)
       \<and> \<bar>realOf (utilAt (CpuToUtilMap s) i) - expectedUtil s i\<bar> \<le> driftBound (length ops)
       \<and> \<bar>realOf (utilAt (CpuToUtilMap s) i) - expectedUtil s i\<bar> < 1 / 10 ^ 9"
proof -
  have "balancedWithin (0 + length ops) s"
    by (rule runOps_within[OF NewRtState_within assms(1,2)]) (use assms(3) in simp)
  then have "closeTo (driftBound (length ops)) (utilAt (cpuToUtil s) i) (expectedUtil s i)"
    by (simp add: balancedWithin_def)
  then show ?thesis
    using driftBound_small[OF assms(3)] by (simp add: closeTo_def CpuToUtilMap_def)
qed

text \<open>
  The theorem on: set \<open>a\<close> on CPUs 0 and 1 with 0.25, set \<open>b\<close> on CPU 0 with 0.5,
  delete \<open>a\<close>. CPU 0 ends with 0.5, the utilisation of \<open>b\<close>.
\<close>

theorem RtState_balance_bounded_witness:
  "list_all utilInUnitInterval steadyOps
   \<and> runOps (NewRtState emptyNode) steadyOps = Inr afterSteady
   \<and> length steadyOps \<le> 2900
   \<and> utilAt (CpuToUtilMap afterSteady) 0 = Fin (1/2)
   \<and> \<bar>realOf (utilAt (CpuToUtilMap afterSteady) 0) - expectedUtil afterSteady 0\<bar> < 1 / 10 ^ 9"
proof -
  have 1: "list_all utilInUnitInterval steadyOps"
    by (simp add: steadyOps_def inUnitInterval_def)
  have 2: "utilAt (CpuToUtilMap afterSteady) 0 = Fin (1/2)"
    by (simp add: afterSteady_def utilAt_def CpuToUtilMap_def)
  have 3: "length steadyOps \<le> 2900" by (simp add: steadyOps_def)
  from RtState_balance_bounded[OF 1 runOps_steadyOps 3, of 0] 1 2 3 runOps_steadyOps
  show ?thesis by simp
qed

subsection \<open>A long run\<close>

lemma runOps_append:
  "runOps s (xs @ ys) = (case runOps s xs of Inl e \<Rightarrow> Inl e | Inr s' \<Rightarrow> runOps s' ys)"
  by (induction xs arbitrary: s) (auto split: sum.splits)

lemma driftId_inj: "driftId j = driftId k \<longleftrightarrow> j = k"
proof
  assume "driftId j = driftId k"
  then have "length (driftId j) = length (driftId k)" by simp
  then show "j = k" by (simp add: driftId_def)
qed simp

lemma driftId_fresh: "driftId n \<notin> driftId ` {..<n}"
  by (auto simp: driftId_inj)

lemma driftUtil_unit: "inUnitInterval (Fin driftUtil)"
  by (simp add: inUnitInterval_def driftUtil_def)

lemma drift_exact:
  assumes "Suc n \<le> 8192"
  shows "roundF (real n * driftUtil + driftUtil) = Fin (real (Suc n) * driftUtil)"
proof (cases "Suc n = 8192")
  case True
  then have n: "real n = 8191" by simp
  have a: "real n * driftUtil + driftUtil = of_int (2 ^ 40 + 1) / 2 ^ 28"
    by (simp add: n driftUtil_def)
  have b: "real (Suc n) * driftUtil = of_int (2 ^ 40 + 1) / 2 ^ 28"
    using a by (simp add: algebra_simps)
  show ?thesis unfolding a b by (rule roundF_dyadic) simp_all
next
  case False
  with assms have n: "int (Suc n) \<le> 8191" by simp
  define m where "m = int (Suc n) * (2 ^ 40 + 1)"
  have "m \<le> 8191 * (2 ^ 40 + 1)" unfolding m_def using n by (intro mult_right_mono) simp_all
  moreover have "0 \<le> m" by (simp add: m_def)
  ultimately have m: "\<bar>m\<bar> < 2 ^ 53" by simp
  have b: "real (Suc n) * driftUtil = of_int m / 2 ^ 41"
    by (simp add: m_def driftUtil_def field_simps)
  have a: "real n * driftUtil + driftUtil = of_int m / 2 ^ 41"
    unfolding b[symmetric] by (simp add: algebra_simps)
  show ?thesis unfolding a b using m by (rule roundF_dyadic) simp
qed

lemma drift_lossy:
  assumes "8192 \<le> n" "n < 16000"
  shows "roundF (8192 * driftUtil + (real n - 8192) / 2 + driftUtil)
           = Fin (8192 * driftUtil + (real (Suc n) - 8192) / 2)"
proof -
  define x where "x = 8192 * driftUtil + (real n - 8192) / 2 + driftUtil"
  define m where "m = (int n + 1) * 2 ^ 39 + 4096"
  have x: "x = (real n + 1) / 2 + 8193 / 2 ^ 41"
    by (simp add: x_def driftUtil_def field_simps)
  have n: "8192 \<le> real n" "real n < 16000" using assms by simp_all
  define t :: real where "t = 8193 / 2 ^ 41"
  have t: "0 < t" "t < 1" by (simp_all add: t_def)
  have x': "x = (real n + 1) / 2 + t" unfolding x t_def by simp
  have xlo: "4096 \<le> x" using n t unfolding x' by (simp add: field_simps)
  have xhi: "x < 8192" using n t unfolding x' by (simp add: field_simps)
  note xb = xlo xhi
  have ax: "\<bar>x\<bar> = x" using xlo by simp
  have lo: "2 powi 12 \<le> \<bar>x\<bar>" unfolding ax using xb by simp
  have hi: "\<bar>x\<bar> < 2 powi (12 + 1)" unfolding ax using xb by simp
  have q: "x / 2 powi (12 - 52) = of_int m + 1/2"
    by (simp add: x m_def power_int_minus_divide field_simps)
  have "even m" by (simp add: m_def)
  then have r: "rne (x / 2 powi (12 - 52)) = m" unfolding q by (rule rne_half_even)
  have y: "8192 * driftUtil + (real (Suc n) - 8192) / 2 = of_int m * 2 powi (12 - 52)"
    by (simp add: m_def driftUtil_def power_int_minus_divide field_simps)
  show ?thesis unfolding x_def[symmetric]
    by (rule roundF_val[OF lo hi _ _ r y]) simp_all
qed

lemma drift_step:
  assumes "n < 16000"
  shows "roundF (driftStored n + driftUtil) = Fin (driftStored (Suc n))"
proof (cases "Suc n \<le> 8192")
  case True
  then have ds: "driftStored n = real n * driftUtil"
    and ds': "driftStored (Suc n) = real (Suc n) * driftUtil"
    by (simp_all add: driftStored_def)
  show ?thesis unfolding ds ds' using True by (rule drift_exact)
next
  case False
  then have n: "8192 \<le> n" by simp
  have ds: "driftStored n = 8192 * driftUtil + (real n - 8192) / 2"
  proof (cases "n = 8192")
    case True
    then show ?thesis by (simp add: driftStored_def)
  next
    case False
    with n show ?thesis by (simp add: driftStored_def)
  qed
  have ds': "driftStored (Suc n) = 8192 * driftUtil + (real (Suc n) - 8192) / 2"
    using False by (simp add: driftStored_def)
  show ?thesis unfolding ds ds' using n assms by (rule drift_lossy)
qed

lemma applyOp_drift:
  assumes "n < 16000"
  shows "applyOp (driftState n) (driftOp n) = Inr (driftState (Suc n))"
proof -
  have fresh: "driftId n \<notin> driftId ` {..<n}" by (rule driftId_fresh)
  have img: "driftId ` {..<Suc n} = insert (driftId n) (driftId ` {..<n})"
    by (simp add: lessThan_Suc)
  show ?thesis
    using fresh drift_step[OF assms]
    by (auto simp: driftOp_def driftState_def SetRtCPUSetAndUtilOfContainer_def commitRt_def
        SetCPUSet_def Let_def addToCpus_def utilAt_def img fun_eq_iff)
qed

lemma runOps_drift:
  "n \<le> 16000 \<Longrightarrow> runOps (NewRtState emptyNode) (driftOps n) = Inr (driftState n)"
proof (induction n)
  case 0
  show ?case
    by (auto simp: driftOps_def driftState_def driftStored_def NewRtState_def emptyNode_def
        fun_eq_iff)
next
  case (Suc n)
  then have n: "n < 16000" by simp
  have "driftOps (Suc n) = driftOps n @ [driftOp n]" by (simp add: driftOps_def)
  then show ?case using Suc applyOp_drift[OF n] by (simp add: runOps_append)
qed

lemma expectedUtil_driftState: "expectedUtil (driftState n) 0 = real n * driftUtil"
proof -
  have "containersOn (driftState n) 0 = driftId ` {..<n}"
    by (auto simp: containersOn_def driftState_def split: if_splits)
  then have "expectedUtil (driftState n) 0 = (\<Sum>c \<in> driftId ` {..<n}. driftUtil)"
    unfolding expectedUtil_def by (auto simp: driftState_def intro!: sum.cong)
  also have "\<dots> = real (card (driftId ` {..<n})) * driftUtil" by simp
  also have "card (driftId ` {..<n}) = n"
    by (subst card_image) (auto simp: inj_on_def driftId_inj)
  finally show ?thesis .
qed

lemma list_all_driftOps: "list_all utilInUnitInterval (driftOps n)"
  by (simp add: driftOps_def list_all_iff driftOp_def driftUtil_unit)

text \<open>
  The claim as stated fails. Set 10392 containers, one after the other, on CPU 0, each
  with the utilisation \<open>0.5 + 2^-41\<close>, a \<open>float64\<close> inside the unit interval. The
  first 8192 additions are exact; from then on the stored value is at least 4096, where
  neighbouring \<open>float64\<close> numbers are \<open>2^-40\<close> apart, and each addition rounds
  \<open>2^-41\<close> away. At the end CPU 0 stores \<open>5196 + 2^-28\<close>, the sum of the utilisations
  is \<open>5196 + 10392 * 2^-41\<close>, and the two differ by \<open>2200 * 2^-41\<close>, more than
  \<open>1e-9\<close>.
\<close>

theorem RtState_balance_drift_counterexample:
  "list_all utilInUnitInterval (driftOps 10392)
   \<and> runOps (NewRtState emptyNode) (driftOps 10392) = Inr (driftState 10392)
   \<and> utilAt (CpuToUtilMap (driftState 10392)) 0 = Fin (5196 + 1 / 2 ^ 28)
   \<and> expectedUtil (driftState 10392) 0 = 5196 + 10392 / 2 ^ 41
   \<and> \<not> \<bar>realOf (utilAt (CpuToUtilMap (driftState 10392)) 0)
          - expectedUtil (driftState 10392) 0\<bar> < 1 / 10 ^ 9"
proof -
  have 1: "list_all utilInUnitInterval (driftOps 10392)" by (rule list_all_driftOps)
  have 2: "runOps (NewRtState emptyNode) (driftOps 10392) = Inr (driftState 10392)"
    by (rule runOps_drift) simp
  have 3: "utilAt (CpuToUtilMap (driftState 10392)) 0 = Fin (5196 + 1 / 2 ^ 28)"
    by (simp add: CpuToUtilMap_def driftState_def utilAt_def driftStored_def driftUtil_def)
  have 4: "expectedUtil (driftState 10392) 0 = 5196 + 10392 / 2 ^ 41"
    by (simp add: expectedUtil_driftState driftUtil_def)
  have 5: "\<not> \<bar>realOf (utilAt (CpuToUtilMap (driftState 10392)) 0)
          - expectedUtil (driftState 10392) 0\<bar> < 1 / 10 ^ 9"
    unfolding 3 4 by simp
  from 1 2 3 4 5 show ?thesis by blast
qed

section \<open>Pod QoS classification\<close>

lemma positiveQuantities_Cons:
  "positiveQuantities ((n, q) # es) name =
     (if n = name \<and> isSupportedQoSComputeResource n \<and> q > 0 then q # positiveQuantities es name
      else positiveQuantities es name)"
  by (auto simp: positiveQuantities_def)

lemma positiveQuantities_Nil [simp]: "positiveQuantities [] name = []"
  by (simp add: positiveQuantities_def)

lemma positiveQuantities_append:
  "positiveQuantities (xs @ ys) name = positiveQuantities xs name @ positiveQuantities ys name"
  by (simp add: positiveQuantities_def)

lemma processRequests_plusOpt:
  "processRequests acc es name = plusOpt (acc name) (positiveQuantities es name)"
proof (induction es arbitrary: acc)
  case Nil
  then show ?case by (simp add: plusOpt_def split: option.splits)
next
  case (Cons e es)
  obtain n q where e: "e = (n, q)" by (cases e)
  show ?case unfolding e
    by (auto simp: Cons.IH positiveQuantities_Cons plusOpt_def split: option.splits)
qed

lemma processLimits_fst:
  "fst (processLimits (acc, found) es) = processRequests acc es"
proof (induction es arbitrary: acc found)
  case Nil
  then show ?case by simp
next
  case (Cons e es)
  obtain n q where e: "e = (n, q)" by (cases e)
  show ?case unfolding e by (cases "acc n") (simp_all add: Cons.IH fun_upd_def)
qed

lemma processLimits_snd:
  "snd (processLimits (acc, found) es) =
     found \<union> set (map fst (filter (\<lambda>(n, q). isSupportedQoSComputeResource n \<and> q > 0) es))"
proof (induction es arbitrary: acc found)
  case Nil
  then show ?case by simp
next
  case (Cons e es)
  obtain n q where e: "e = (n, q)" by (cases e)
  show ?case unfolding e by (cases "acc n") (simp_all add: Cons.IH fun_upd_def)
qed

lemma plusOpt_append:
  "plusOpt (plusOpt a xs) ys = plusOpt a (xs @ ys)"
  by (auto simp: plusOpt_def split: option.splits)

lemma LimitsComplete_found:
  "LimitsComplete container \<longleftrightarrow>
     (let found = snd (processLimits (acc, {}) (Limits container))
      in (ResourceMemory \<in> found \<and> ResourceCPU \<in> found) \<or> ResourceRtRuntime \<in> found)"
  by (auto simp: LimitsComplete_def positiveLimitNames_def processLimits_snd Let_def
      isSupportedQoSComputeResource_def supportedQoSComputeResources_def)

lemma containerLoop_eq:
  "containerLoop (req, lims, g) cs =
     ((\<lambda>name. plusOpt (req name) (positiveQuantities (concat (map Requests cs)) name)),
      (\<lambda>name. plusOpt (lims name) (positiveQuantities (concat (map Limits cs)) name)),
      g \<and> list_all LimitsComplete cs)"
proof (induction cs arbitrary: req lims g)
  case Nil
  show ?case by (auto simp: plusOpt_def fun_eq_iff split: option.splits)
next
  case (Cons c cs)
  obtain lims' found where pl: "processLimits (lims, {}) (Limits c) = (lims', found)"
    by (cases "processLimits (lims, {}) (Limits c)")
  have lims': "lims' = processRequests lims (Limits c)"
    using processLimits_fst[of lims "{}" "Limits c"] pl by simp
  have complete: "LimitsComplete c \<longleftrightarrow>
      ((ResourceMemory \<in> found \<and> ResourceCPU \<in> found) \<or> ResourceRtRuntime \<in> found)"
    using LimitsComplete_found[of c lims] pl by (simp add: Let_def)
  show ?case
    by (simp add: pl Let_def Cons.IH lims' processRequests_plusOpt plusOpt_append
        positiveQuantities_append complete)
      (auto simp: complete)
qed

lemma containerLoop_spec:
  "containerLoop (Map.empty, Map.empty, True) cs =
     (aggregate (map Requests cs), aggregate (map Limits cs), list_all LimitsComplete cs)"
  by (simp add: containerLoop_eq aggregate_def plusOpt_def Let_def fun_eq_iff)

lemma finite_dom_aggregate: "finite (dom (aggregate ls))"
proof (rule finite_subset)
  show "dom (aggregate ls) \<subseteq> fst ` set (concat ls)"
    by (force simp: aggregate_def Let_def dom_def positiveQuantities_def filter_empty_conv
        split: if_splits)
qed simp

lemma requestsMatchLimits_eq:
  assumes "finite (dom r)" "finite (dom l)"
  shows "requestsMatchLimits r l \<and> card (dom r) = card (dom l) \<longleftrightarrow> r = l"
proof
  assume a: "requestsMatchLimits r l \<and> card (dom r) = card (dom l)"
  then have sub: "dom r \<subseteq> dom l"
    by (auto simp: requestsMatchLimits_def split: option.splits)
  with a assms have eq: "dom r = dom l" by (simp add: card_subset_eq)
  show "r = l"
  proof
    fix name
    show "r name = l name"
    proof (cases "name \<in> dom r")
      case True
      then obtain y where y: "r name = Some y" by auto
      from a True have "case l name of None \<Rightarrow> False | Some limit \<Rightarrow> limit = the (r name)"
        unfolding requestsMatchLimits_def by blast
      with y show ?thesis by (cases "l name") simp_all
    next
      case False
      with eq have "name \<notin> dom l" by simp
      with False show ?thesis by (simp add: domIff)
    qed
  qed
next
  assume "r = l"
  then show "requestsMatchLimits r l \<and> card (dom r) = card (dom l)"
    by (auto simp: requestsMatchLimits_def)
qed

lemma aggregate_guaranteedPod:
  "specR guaranteedPod = [''cpu'' \<mapsto> 1, ''memory'' \<mapsto> 1073741824]"
  "specL guaranteedPod = [''cpu'' \<mapsto> 1, ''memory'' \<mapsto> 1073741824]"
  by (auto simp: specR_def specL_def guaranteedPod_def aggregate_def positiveQuantities_def
      Let_def isSupportedQoSComputeResource_def supportedQoSComputeResources_def
      ResourceCPU_def ResourceMemory_def fun_eq_iff)

text \<open>
  C5. For every pod, with \<open>R\<close> and \<open>L\<close> the aggregates of the positive requests and
  limits over the recognised resource names across all regular and init containers, the
  classifier returns BestEffort when \<open>R\<close> and \<open>L\<close> are both empty; otherwise Guaranteed
  when every container's positive limits contain both cpu and memory or contain
  rt-runtime and \<open>R\<close> has the same keys and per-key quantities as \<open>L\<close>; otherwise
  Burstable. The three classes are distinct values, so each pod gets exactly one of them
  and each class is returned exactly under its condition.
\<close>

theorem GetPodQOS_classification:
  "GetPodQOS pod =
     (if specR pod = Map.empty \<and> specL pod = Map.empty then PodQOSBestEffort
      else if list_all LimitsComplete (Containers pod @ InitContainers pod)
              \<and> specR pod = specL pod
           then PodQOSGuaranteed
      else PodQOSBurstable)"
proof -
  define r where "r = specR pod"
  define l where "l = specL pod"
  have fr: "finite (dom r)" and fl: "finite (dom l)"
    by (simp_all add: r_def l_def specR_def specL_def finite_dom_aggregate)
  have e: "card (dom r) = 0 \<and> card (dom l) = 0 \<longleftrightarrow> r = Map.empty \<and> l = Map.empty"
    using fr fl by auto
  show ?thesis
    using requestsMatchLimits_eq[OF fr fl] e
    unfolding GetPodQOS_def Let_def containerLoop_spec
    by (fold specR_def specL_def r_def l_def) (auto simp: r_def[symmetric] l_def[symmetric])
qed

text \<open>
  The theorem at the spec's scenario 1: one container with requests and limits both
  cpu 1 and memory 1Gi is Guaranteed.
\<close>

theorem GetPodQOS_classification_witness:
  "specR guaranteedPod = specL guaranteedPod
   \<and> specR guaranteedPod \<noteq> Map.empty
   \<and> list_all LimitsComplete (Containers guaranteedPod @ InitContainers guaranteedPod)
   \<and> GetPodQOS guaranteedPod = PodQOSGuaranteed"
proof -
  have 1: "specR guaranteedPod = specL guaranteedPod"
    by (simp add: aggregate_guaranteedPod)
  have "specR guaranteedPod ''cpu'' \<noteq> None"
    by (simp add: aggregate_guaranteedPod)
  then have 2: "specR guaranteedPod \<noteq> Map.empty" by auto
  have 3: "list_all LimitsComplete (Containers guaranteedPod @ InitContainers guaranteedPod)"
    by (simp add: guaranteedPod_def LimitsComplete_def positiveLimitNames_def
        ResourceCPU_def ResourceMemory_def)
  from GetPodQOS_classification[of guaranteedPod] 1 2 3 show ?thesis by simp
qed

section \<open>Internal container lifecycle\<close>

text \<open>
  C9, as amended. For every container id, \<open>PostStopContainer\<close> calls the CPU manager's
  \<open>RemoveContainer\<close> exactly when the CPU-manager gate is on, and the topology manager's
  \<open>RemoveContainer\<close> exactly when its gate is on and the CPU manager's call (if made) did
  not fail. The first error of a collaborator is returned to the caller: the hook
  returns success only if every call it made succeeded.
\<close>

theorem PostStopContainer_propagates_errors:
  "(CpuManagerRemoveContainer containerID \<in> set (fst (PostStopContainer i containerID)))
      = cpuManagerGate i
   \<and> (TopologyManagerRemoveContainer containerID \<in> set (fst (PostStopContainer i containerID)))
      = (topologyManagerGate i
         \<and> \<not> (cpuManagerGate i \<and> cpuManager_RemoveContainer i containerID \<noteq> None))
   \<and> snd (PostStopContainer i containerID)
      = (if cpuManagerGate i \<and> cpuManager_RemoveContainer i containerID \<noteq> None
         then cpuManager_RemoveContainer i containerID
         else if topologyManagerGate i then topologyManager_RemoveContainer i containerID
         else None)"
  by (cases "cpuManager_RemoveContainer i containerID";
      cases "topologyManager_RemoveContainer i containerID")
    (auto simp: PostStopContainer_def)

text \<open>
  The theorem with both gates on, a CPU manager whose \<open>RemoveContainer\<close> fails and a
  topology manager whose \<open>RemoveContainer\<close> would succeed: the error is returned and
  the topology manager is not called.
\<close>

theorem PostStopContainer_propagates_errors_witness:
  "CpuManagerRemoveContainer ''c1'' \<in> set (fst (PostStopContainer failingCpuManager ''c1''))
   \<and> TopologyManagerRemoveContainer ''c1''
        \<notin> set (fst (PostStopContainer failingCpuManager ''c1''))
   \<and> snd (PostStopContainer failingCpuManager ''c1'') = Some ''remove failed''"
  using PostStopContainer_propagates_errors[of "''c1''" failingCpuManager]
  by (simp add: failingCpuManager_def removeFails_def)

text \<open>
  The claim as stated fails: when the CPU manager's \<open>RemoveContainer\<close> fails,
  \<open>PostStopContainer\<close> returns that error instead of success, after the CPU manager's
  call alone.
\<close>

theorem PostStopContainer_counterexample:
  "PostStopContainer failingCpuManager ''c1''
     = ([CpuManagerRemoveContainer ''c1''], Some ''remove failed'')"
  by (simp add: PostStopContainer_def failingCpuManager_def removeFails_def)


end
